theory Spec2Isabelle
  imports Main
begin

section \<open>Data model (src/src/types.ts)\<close>

datatype role = User | Assistant

record message =
  role :: role
  content :: string

text \<open>
  The value \<open>JSON.parse\<close> hands to \<open>setPackingList\<close> is whatever the text denotes, so
  the stored packing list is a JSON value, not only one of the \<open>PackingList\<close> shape.
  \<open>JNull\<close> is JavaScript's \<open>null\<close>, the initial value of the state cell. A number
  literal is kept as mantissa and decimal exponent (\<open>JNumber m e\<close> stands for
  \<open>m * 10^e\<close>). An object is the list of its members in source order; a key that
  occurs twice takes its last value.
\<close>

datatype json =
    JNull
  | JBool bool
  | JNumber int int
  | JString string
  | JArray "json list"
  | JObject "(string \<times> json) list"

section \<open>Text primitives of the language runtime\<close>

text \<open>
  Text is a list of 8-bit characters, read as the code units below 256. The white space
  and line terminators of \<open>String.prototype.trim\<close> in that range are TAB, LF, VT, FF,
  CR, SPACE and NBSP.
\<close>

definition newline :: char where
  "newline = CHR 0x0A"

definition isWhiteSpace :: "char \<Rightarrow> bool" where
  "isWhiteSpace c \<longleftrightarrow>
     c \<in> set [CHR 0x09, CHR 0x0A, CHR 0x0B, CHR 0x0C, CHR 0x0D, CHR 0x20, CHR 0xA0]"

definition trim :: "string \<Rightarrow> string" where
  "trim s = rev (dropWhile isWhiteSpace (rev (dropWhile isWhiteSpace s)))"

text \<open>\<open>hay.includes(needle)\<close>: the needle occurs somewhere in the text.\<close>

fun includes_str :: "string \<Rightarrow> string \<Rightarrow> bool" where
  "includes_str [] needle = (needle = [])"
| "includes_str (c # cs) needle =
     (take (length needle) (c # cs) = needle \<or> includes_str cs needle)"

subsection \<open>JSON.parse\<close>

text \<open>
  The controllers take \<open>JSON.parse\<close> as a parameter \<open>parse\<close>: a function from the text
  to the parsed value (\<open>Inr\<close>) or to the message of the \<open>SyntaxError\<close> it throws
  (\<open>Inl\<close>), and the general theorems hold for every such function. \<open>JSON_parse\<close> below
  is the instance used on concrete inputs: a recursive-descent reader of the JSON grammar
  (white space, the three literals, numbers, strings with their escapes, arrays, objects).
  It is limited by the 8-bit text: an escape \<open>\uXXXX\<close> above \<open>00FF\<close> is not
  representable and is refused. The message of the \<open>SyntaxError\<close> is engine-defined; the
  model gives one fixed text. The first argument of \<open>parseValue\<close>, \<open>parseElements\<close> and
  \<open>parseMembers\<close> bounds the depth of the calls. \<open>JSON_parse\<close> starts with twice the
  length of the text and two, which is enough: a value that any bound yields is the value
  that this bound yields (lemma \<open>JSON_parse_any_fuel\<close>).
\<close>

definition isJsonWs :: "char \<Rightarrow> bool" where
  "isJsonWs c \<longleftrightarrow> c \<in> set [CHR 0x20, CHR 0x09, CHR 0x0A, CHR 0x0D]"

definition skipWs :: "string \<Rightarrow> string" where
  "skipWs s = dropWhile isJsonWs s"

definition isDigit :: "char \<Rightarrow> bool" where
  "isDigit c \<longleftrightarrow> (48::nat) \<le> of_char c \<and> of_char c \<le> (57::nat)"

definition digitsValue :: "string \<Rightarrow> int" where
  "digitsValue ds = foldl (\<lambda>a c. 10 * a + (of_char c - 48)) 0 ds"

definition hexValue :: "char \<Rightarrow> nat option" where
  "hexValue c =
     (let n = of_char c :: nat in
      if 48 \<le> n \<and> n \<le> 57 then Some (n - 48)
      else if 65 \<le> n \<and> n \<le> 70 then Some (n - 55)
      else if 97 \<le> n \<and> n \<le> 102 then Some (n - 87)
      else None)"

definition unicodeEscape :: "string \<Rightarrow> char option" where
  "unicodeEscape h =
     (case map hexValue h of
        [Some a, Some b, Some c, Some d] \<Rightarrow>
          if a = 0 \<and> b = 0 then Some (char_of (16 * c + d)) else None
      | _ \<Rightarrow> None)"

definition simpleEscape :: "char \<Rightarrow> char option" where
  "simpleEscape e =
     (if e = CHR 0x22 then Some (CHR 0x22)
      else if e = CHR 0x5C then Some (CHR 0x5C)
      else if e = CHR ''/'' then Some (CHR ''/'')
      else if e = CHR ''b'' then Some (CHR 0x08)
      else if e = CHR ''f'' then Some (CHR 0x0C)
      else if e = CHR ''n'' then Some (CHR 0x0A)
      else if e = CHR ''r'' then Some (CHR 0x0D)
      else if e = CHR ''t'' then Some (CHR 0x09)
      else None)"

text \<open>The characters of a string behind its opening quote, and the text behind it.\<close>

fun parseChars :: "string \<Rightarrow> (string \<times> string) option" where
  "parseChars [] = None"
| "parseChars [c] = (if c = CHR 0x22 then Some ([], []) else None)"
| "parseChars (c # e # cs) =
     (if c = CHR 0x22 then Some ([], e # cs)
      else if c = CHR 0x5C then
        (if e = CHR ''u'' then
           (case unicodeEscape (take 4 cs) of
              None \<Rightarrow> None
            | Some u \<Rightarrow> map_option (apfst ((#) u)) (parseChars (drop 4 cs)))
         else
           (case simpleEscape e of
              None \<Rightarrow> None
            | Some u \<Rightarrow> map_option (apfst ((#) u)) (parseChars cs)))
      else if (of_char c :: nat) < 32 then None
      else map_option (apfst ((#) c)) (parseChars (e # cs)))"

text \<open>
  A number is read in four stages, each giving what it read and the text behind it: the
  sign, the digits of the integer part, the fraction, the exponent.
\<close>

definition signStage :: "string \<Rightarrow> bool \<times> string" where
  "signStage s = (if take 1 s = ''-'' then (True, drop 1 s) else (False, s))"

definition digitsStage :: "string \<Rightarrow> string \<times> string" where
  "digitsStage s = (takeWhile isDigit s, dropWhile isDigit s)"

definition fracStage :: "string \<Rightarrow> bool \<times> string \<times> string" where
  "fracStage s =
     (if take 1 s = ''.'' then (True, digitsStage (drop 1 s)) else (False, [], s))"

definition expStage :: "string \<Rightarrow> bool \<times> bool \<times> string \<times> string" where
  "expStage s =
     (if take 1 s = ''e'' \<or> take 1 s = ''E'' then
        (if take 1 (drop 1 s) = ''-'' then (True, True, digitsStage (drop 2 s))
         else if take 1 (drop 1 s) = ''+'' then (True, False, digitsStage (drop 2 s))
         else (True, False, digitsStage (drop 1 s)))
      else (False, False, [], s))"

definition parseNumber :: "string \<Rightarrow> (json \<times> string) option" where
  "parseNumber s =
     (case signStage s of (neg, s1) \<Rightarrow>
      case digitsStage s1 of (ip, s2) \<Rightarrow>
      case fracStage s2 of (hasFrac, fp, s3) \<Rightarrow>
      case expStage s3 of (hasExp, eneg, ep, s4) \<Rightarrow>
        if ip = [] \<or> (length ip > 1 \<and> hd ip = CHR ''0'') \<or> (hasFrac \<and> fp = [])
           \<or> (hasExp \<and> ep = []) then None
        else Some (JNumber ((if neg then - 1 else 1) * digitsValue (ip @ fp))
                     ((if eneg then - 1 else 1) * digitsValue ep - int (length fp)), s4))"

text \<open>A value that is neither an object nor an array, at the head of the text.\<close>

definition parseScalar :: "string \<Rightarrow> (json \<times> string) option" where
  "parseScalar s =
     (if take 1 s = [CHR 0x22] then map_option (apfst JString) (parseChars (drop 1 s))
      else if take 4 s = ''true'' then Some (JBool True, drop 4 s)
      else if take 5 s = ''false'' then Some (JBool False, drop 5 s)
      else if take 4 s = ''null'' then Some (JNull, drop 4 s)
      else parseNumber s)"

fun parseValue :: "nat \<Rightarrow> string \<Rightarrow> (json \<times> string) option"
  and parseElements :: "nat \<Rightarrow> string \<Rightarrow> (json list \<times> string) option"
  and parseMembers :: "nat \<Rightarrow> string \<Rightarrow> ((string \<times> json) list \<times> string) option"
where
  "parseValue 0 s = None"
| "parseValue (Suc n) s =
     (case skipWs s of
        [] \<Rightarrow> None
      | c # cs \<Rightarrow>
          if c = CHR ''{'' then
            (if take 1 (skipWs cs) = ''}'' then Some (JObject [], drop 1 (skipWs cs))
             else map_option (apfst JObject) (parseMembers n cs))
          else if c = CHR ''['' then
            (if take 1 (skipWs cs) = '']'' then Some (JArray [], drop 1 (skipWs cs))
             else map_option (apfst JArray) (parseElements n cs))
          else parseScalar (c # cs))"
| "parseElements 0 s = None"
| "parseElements (Suc n) s =
     (case parseValue n s of
        None \<Rightarrow> None
      | Some (v, r) \<Rightarrow>
          (case skipWs r of
             [] \<Rightarrow> None
           | c # cs \<Rightarrow>
               if c = CHR '','' then map_option (apfst ((#) v)) (parseElements n cs)
               else if c = CHR '']'' then Some ([v], cs)
               else None))"
| "parseMembers 0 s = None"
| "parseMembers (Suc n) s =
     (case skipWs s of
        [] \<Rightarrow> None
      | q # s1 \<Rightarrow>
          if q \<noteq> CHR 0x22 then None
          else
            (case parseChars s1 of
               None \<Rightarrow> None
             | Some (k, s2) \<Rightarrow>
                 if take 1 (skipWs s2) \<noteq> '':'' then None
                 else
                   (case parseValue n (drop 1 (skipWs s2)) of
                      None \<Rightarrow> None
                    | Some (v, r) \<Rightarrow>
                        (case skipWs r of
                           [] \<Rightarrow> None
                         | c # cs \<Rightarrow>
                             if c = CHR '','' then
                               map_option (apfst ((#) (k, v))) (parseMembers n cs)
                             else if c = CHR ''}'' then Some ([(k, v)], cs)
                             else None))))"

definition JSON_parse :: "string \<Rightarrow> string + json" where
  "JSON_parse text =
     (case parseValue (2 * length text + 2) text of
        None \<Rightarrow> Inl ''Unexpected token''
      | Some (v, r) \<Rightarrow> if skipWs r = [] then Inr v else Inl ''Unexpected token'')"

section \<open>The request lifecycle controller (src/unnamed/part_001)\<close>

subsection \<open>State\<close>

text \<open>
  The five \<open>useState\<close> cells of \<open>App\<close>, and two logs that make the effects of the
  asynchronous call visible: \<open>calls\<close> lists the prompts handed to
  \<open>model.generateContent\<close>, oldest first, and \<open>suspended\<close> lists, for every invocation of
  \<open>generatePackingList\<close> that is waiting at its \<open>await\<close>, the \<open>input\<close> its closure
  captured.
\<close>

record app =
  messages :: "message list"
  input :: string
  isLoading :: bool
  packingList :: json
  apiKeyError :: bool
  calls :: "string list"
  suspended :: "string list"

text \<open>
  \<open>API_KEY\<close> is \<open>import.meta.env.VITE_GEMINI_API_KEY\<close>: a string or \<open>undefined\<close>.
  The test \<open>!API_KEY\<close> holds for \<open>undefined\<close> and for the empty string.
\<close>

definition keyMissing :: "string option \<Rightarrow> bool" where
  "keyMissing API_KEY \<longleftrightarrow> (case API_KEY of None \<Rightarrow> True | Some k \<Rightarrow> k = [])"

definition init :: "string option \<Rightarrow> app" where
  "init API_KEY =
     \<lparr>messages = [], input = [], isLoading = False, packingList = JNull,
      apiKeyError = keyMissing API_KEY, calls = [], suspended = []\<rparr>"

subsection \<open>Fixed message texts\<close>

text \<open>
  The texts are those of the source, character by character. Two of them are written as
  two pieces, cut inside a word that theory sources reserve.
\<close>

definition msgNotConfigured :: string where
  "msgNotConfigured =
     ''Error: Gemini API key is not configured. Please add your API key to the .env file.''"

definition msgGenerated :: string where
  "msgGenerated =
     ''I've generated a packing list based on your trip details. You can find it below!''"

definition msgInvalidFormat :: string where
  "msgInvalidFormat =
     ''Sor'' @ ''ry, I received an invalid response format. Please try again.''"

definition msgInvalidKey :: string where
  "msgInvalidKey = ''Error: Invalid API key. Please check your Gemini API key configuration.''"

definition msgRateLimit :: string where
  "msgRateLimit = ''Rate limit exceeded. Please try again in a few moments.''"

definition msgRetry :: string where
  "msgRetry =
     ''I'm sor''
     @ ''ry, I encountered an error while generating your packing list. Please try again.''"

definition msgUnexpected :: string where
  "msgUnexpected = ''An unexpected error occurred''"

definition userMsg :: "string \<Rightarrow> message" where
  "userMsg t = \<lparr>role = User, content = t\<rparr>"

definition assistantMsg :: "string \<Rightarrow> message" where
  "assistantMsg t = \<lparr>role = Assistant, content = t\<rparr>"

subsection \<open>Cleaning the response text\<close>

text \<open>
  \<open>text.replace(/```json\n?|\n?```/g, '')\<close> scans the text from the left. At each
  position the first alternative is tried first: the opening marker, with a newline after
  it when there is one. Otherwise the second: the closing marker, with the newline before
  it when there is one. A match is deleted and the scan goes on behind it; where nothing
  matches, the character is kept.
\<close>

fun skipNewline :: "string \<Rightarrow> string" where
  "skipNewline [] = []"
| "skipNewline (c # cs) = (if c = newline then cs else c # cs)"

lemma length_skipNewline: "length (skipNewline s) \<le> length s"
  by (cases s) auto

function removeFences :: "string \<Rightarrow> string" where
  "removeFences [] = []"
| "removeFences (c # cs) =
     (if take 7 (c # cs) = ''```json'' then removeFences (skipNewline (drop 7 (c # cs)))
      else if take 4 (c # cs) = newline # ''```'' then removeFences (drop 4 (c # cs))
      else if take 3 (c # cs) = ''```'' then removeFences (drop 3 (c # cs))
      else c # removeFences cs)"
  by pat_completeness auto

termination removeFences
proof (relation "measure length")
  fix c :: char and cs :: string
  have "length (skipNewline (drop 7 (c # cs))) \<le> length (drop 7 (c # cs))"
    by (rule length_skipNewline)
  then show "(skipNewline (drop 7 (c # cs)), c # cs) \<in> measure length"
    by simp
qed simp_all

definition cleanText :: "string \<Rightarrow> string" where
  "cleanText text = trim (removeFences text)"

subsection \<open>The generation call\<close>

definition prompt :: "string \<Rightarrow> string" where
  "prompt x =
     ''Generate a detailed packing list based on this trip description: '' @ [CHR 0x22] @ x
     @ [CHR 0x22] @ ''. '' @ [newline]
     @ ''        Return ONLY a JSON object (no markdown, no backticks) with this structure:''
     @ [newline]
     @ ''        {'' @ [newline]
     @ ''          '' @ [CHR 0x22] @ ''categories'' @ [CHR 0x22] @ '': ['' @ [newline]
     @ ''            {'' @ [newline]
     @ ''              '' @ [CHR 0x22] @ ''name'' @ [CHR 0x22] @ '': '' @ [CHR 0x22]
     @ ''Category Name'' @ [CHR 0x22] @ '','' @ [newline]
     @ ''              '' @ [CHR 0x22] @ ''items'' @ [CHR 0x22] @ '': ['' @ [CHR 0x22]
     @ ''Item 1'' @ [CHR 0x22] @ '', '' @ [CHR 0x22] @ ''Item 2'' @ [CHR 0x22] @ '']''
     @ [newline]
     @ ''            }'' @ [newline]
     @ ''          ]'' @ [newline]
     @ ''        }''"

text \<open>
  What the awaited call gives back: the text of the response, or the value thrown by any
  step of it (getting the model, the request, reading the response text). A thrown value
  is an \<open>Error\<close> with its message, or anything else.
\<close>

datatype thrown = ErrorObj string | NonError

datatype outcome = Rejected thrown | Responded string

definition errorMessage :: "thrown \<Rightarrow> string" where
  "errorMessage error =
     (case error of
        ErrorObj m \<Rightarrow>
          if includes_str m ''API_KEY_INVALID'' then msgInvalidKey
          else if includes_str m ''RATE_LIMIT_EXCEEDED'' then msgRateLimit
          else msgRetry
      | NonError \<Rightarrow> msgUnexpected)"

subsection \<open>generatePackingList and handleSubmit\<close>

text \<open>
  \<open>generatePackingList\<close> is asynchronous, so it is cut at its \<open>await\<close>. The first half
  runs inside the submit event: without a key it is the whole function, with a key it
  ends with the request sent and the invocation suspended. The second half runs when the
  request settles; \<open>x\<close> is the \<open>input\<close> the closure captured, \<open>parse\<close> is
  \<open>JSON.parse\<close>, which returns the value or throws a \<open>SyntaxError\<close> with a message.
\<close>

definition generatePackingList_begin :: "string option \<Rightarrow> app \<Rightarrow> app" where
  "generatePackingList_begin API_KEY s =
     (if keyMissing API_KEY then
        s\<lparr>apiKeyError := True,
          messages := messages s @ [userMsg (input s), assistantMsg msgNotConfigured],
          input := []\<rparr>
      else
        s\<lparr>isLoading := True, apiKeyError := False,
          calls := calls s @ [prompt (input s)],
          suspended := suspended s @ [input s]\<rparr>)"

definition generatePackingList_resume ::
    "(string \<Rightarrow> string + json) \<Rightarrow> string \<Rightarrow> outcome \<Rightarrow> app \<Rightarrow> app" where
  "generatePackingList_resume parse x result s =
     (case result of
        Responded text \<Rightarrow>
          ((case parse (cleanText text) of
              Inr parsedList \<Rightarrow>
                s\<lparr>packingList := parsedList,
                  messages := messages s @ [userMsg x, assistantMsg msgGenerated]\<rparr>
            | Inl jsonError \<Rightarrow>
                s\<lparr>messages := messages s @ [userMsg x, assistantMsg msgInvalidFormat]\<rparr>)
           \<lparr>input := []\<rparr>)
      | Rejected error \<Rightarrow>
          s\<lparr>messages := messages s @ [userMsg x, assistantMsg (errorMessage error)],
            apiKeyError := True,
            input := []\<rparr>)
     \<lparr>isLoading := False, suspended := remove1 x (suspended s)\<rparr>"

definition handleSubmit :: "string option \<Rightarrow> app \<Rightarrow> app" where
  "handleSubmit API_KEY s =
     (if trim (input s) = [] \<or> isLoading s then s else generatePackingList_begin API_KEY s)"

text \<open>
  One submission run to its end: the submit event and, when it sent a request, the
  settling of that request with \<open>result\<close>.
\<close>

definition submit ::
    "(string \<Rightarrow> string + json) \<Rightarrow> string option \<Rightarrow> outcome \<Rightarrow> app \<Rightarrow> app" where
  "submit parse API_KEY result s =
     (if trim (input s) = [] \<or> isLoading s \<or> keyMissing API_KEY then handleSubmit API_KEY s
      else generatePackingList_resume parse (input s) result (handleSubmit API_KEY s))"

section \<open>The controller of src/src/App.tsx\<close>

text \<open>
  \<open>src/src/App.tsx\<close> holds a second \<open>App\<close> with the same state cells, the same
  \<open>handleSubmit\<close> and the same branch for a missing key. Its \<open>generatePackingList\<close>
  differs behind the \<open>await\<close>: the response text goes to \<open>JSON.parse\<close> as it is, inside
  the one \<open>try\<close>, so a \<open>SyntaxError\<close> lands in the handler of the call's failures; and
  that handler knows one class of error only.
\<close>

definition prompt_src :: "string \<Rightarrow> string" where
  "prompt_src x =
     ''Generate a detailed packing list based on this trip description: '' @ [CHR 0x22] @ x
     @ [CHR 0x22] @ ''. '' @ [newline]
     @ ''        Format the response as a JSON object with this structure:'' @ [newline]
     @ ''        {'' @ [newline]
     @ ''          '' @ [CHR 0x22] @ ''categories'' @ [CHR 0x22] @ '': ['' @ [newline]
     @ ''            {'' @ [newline]
     @ ''              '' @ [CHR 0x22] @ ''name'' @ [CHR 0x22] @ '': '' @ [CHR 0x22]
     @ ''Category Name'' @ [CHR 0x22] @ '','' @ [newline]
     @ ''              '' @ [CHR 0x22] @ ''items'' @ [CHR 0x22] @ '': ['' @ [CHR 0x22]
     @ ''Item 1'' @ [CHR 0x22] @ '', '' @ [CHR 0x22] @ ''Item 2'' @ [CHR 0x22] @ '', ...]''
     @ [newline]
     @ ''            }'' @ [newline]
     @ ''          ]'' @ [newline]
     @ ''        }'' @ [newline]
     @ ''        Include common categories like Clothing, Toiletries, Electronics, etc.''"

definition errorMessage_src :: "thrown \<Rightarrow> string" where
  "errorMessage_src error =
     (case error of
        ErrorObj m \<Rightarrow> if includes_str m ''API_KEY_INVALID'' then msgInvalidKey else msgRetry
      | NonError \<Rightarrow> msgRetry)"

definition generatePackingList_begin_src :: "string option \<Rightarrow> app \<Rightarrow> app" where
  "generatePackingList_begin_src API_KEY s =
     (if keyMissing API_KEY then
        s\<lparr>apiKeyError := True,
          messages := messages s @ [userMsg (input s), assistantMsg msgNotConfigured],
          input := []\<rparr>
      else
        s\<lparr>isLoading := True, apiKeyError := False,
          calls := calls s @ [prompt_src (input s)],
          suspended := suspended s @ [input s]\<rparr>)"

text \<open>The \<open>catch\<close> block, entered with whatever the \<open>try\<close> block threw.\<close>

definition catch_src :: "string \<Rightarrow> thrown \<Rightarrow> app \<Rightarrow> app" where
  "catch_src x error s =
     s\<lparr>messages := messages s @ [userMsg x, assistantMsg (errorMessage_src error)],
       apiKeyError := True,
       input := []\<rparr>"

definition generatePackingList_resume_src ::
    "(string \<Rightarrow> string + json) \<Rightarrow> string \<Rightarrow> outcome \<Rightarrow> app \<Rightarrow> app" where
  "generatePackingList_resume_src parse x result s =
     (case result of
        Responded text \<Rightarrow>
          (case parse text of
             Inr parsedList \<Rightarrow>
               s\<lparr>packingList := parsedList,
                 messages := messages s @ [userMsg x, assistantMsg msgGenerated],
                 input := []\<rparr>
           | Inl syntaxError \<Rightarrow> catch_src x (ErrorObj syntaxError) s)
      | Rejected error \<Rightarrow> catch_src x error s)
     \<lparr>isLoading := False, suspended := remove1 x (suspended s)\<rparr>"

definition handleSubmit_src :: "string option \<Rightarrow> app \<Rightarrow> app" where
  "handleSubmit_src API_KEY s =
     (if trim (input s) = [] \<or> isLoading s then s
      else generatePackingList_begin_src API_KEY s)"

definition submit_src ::
    "(string \<Rightarrow> string + json) \<Rightarrow> string option \<Rightarrow> outcome \<Rightarrow> app \<Rightarrow> app" where
  "submit_src parse API_KEY result s =
     (if trim (input s) = [] \<or> isLoading s \<or> keyMissing API_KEY
      then handleSubmit_src API_KEY s
      else generatePackingList_resume_src parse (input s) result (handleSubmit_src API_KEY s))"

section \<open>The result renderer (src/unnamed/part_000) and the controls\<close>

text \<open>
  \<open>PackingListDisplay\<close> reads \<open>list.categories\<close>, calls \<open>map\<close> on it, and for every
  category reads \<open>category.name\<close> and calls \<open>category.items.map\<close>. Reading a property of
  \<open>null\<close> throws a \<open>TypeError\<close>; on any other value that is not an object, and on an
  object without the key, the three keys read here give \<open>undefined\<close> (\<open>None\<close>). Calling
  \<open>map\<close> on anything but an array throws a \<open>TypeError\<close>. The model returns what the
  component hands to its elements: per category the name read and the items.
\<close>

datatype jsError = TypeError

definition getProp :: "json \<Rightarrow> string \<Rightarrow> jsError + json option" where
  "getProp v k =
     (case v of
        JNull \<Rightarrow> Inl TypeError
      | JObject ms \<Rightarrow> Inr (map_of (rev ms) k)
      | _ \<Rightarrow> Inr None)"

fun mapE :: "('a \<Rightarrow> jsError + 'b) \<Rightarrow> 'a list \<Rightarrow> jsError + 'b list" where
  "mapE f [] = Inr []"
| "mapE f (x # xs) =
     (case f x of
        Inl e \<Rightarrow> Inl e
      | Inr y \<Rightarrow> (case mapE f xs of Inl e \<Rightarrow> Inl e | Inr ys \<Rightarrow> Inr (y # ys)))"

definition callMap :: "json option \<Rightarrow> (json \<Rightarrow> jsError + 'b) \<Rightarrow> jsError + 'b list" where
  "callMap v f = (case v of Some (JArray xs) \<Rightarrow> mapE f xs | _ \<Rightarrow> Inl TypeError)"

definition PackingListDisplay :: "json \<Rightarrow> jsError + (json option \<times> json list) list" where
  "PackingListDisplay list =
     (case getProp list ''categories'' of
        Inl e \<Rightarrow> Inl e
      | Inr categories \<Rightarrow>
          callMap categories (\<lambda>category.
            case getProp category ''name'' of
              Inl e \<Rightarrow> Inl e
            | Inr name \<Rightarrow>
                (case getProp category ''items'' of
                   Inl e \<Rightarrow> Inl e
                 | Inr items \<Rightarrow>
                     (case callMap items Inr of
                        Inl e \<Rightarrow> Inl e
                      | Inr rows \<Rightarrow> Inr (name, rows)))))"

text \<open>
  \<open>App\<close> renders \<open>packingList && <PackingListDisplay list={packingList} />\<close>: the
  component runs exactly when the stored value is truthy. (A number is falsy when it is
  zero; rounding to a double is not modelled.)
\<close>

definition truthy :: "json \<Rightarrow> bool" where
  "truthy v =
     (case v of
        JNull \<Rightarrow> False
      | JBool b \<Rightarrow> b
      | JNumber m e \<Rightarrow> m \<noteq> 0
      | JString t \<Rightarrow> t \<noteq> []
      | _ \<Rightarrow> True)"

definition renderResult :: "app \<Rightarrow> (jsError + (json option \<times> json list) list) option" where
  "renderResult s =
     (if truthy (packingList s) then Some (PackingListDisplay (packingList s)) else None)"

text \<open>The \<open>disabled\<close> attributes of the text field and of the submit button.\<close>

definition inputDisabled :: "app \<Rightarrow> bool" where
  "inputDisabled s \<longleftrightarrow> isLoading s \<or> apiKeyError s"

definition buttonDisabled :: "app \<Rightarrow> bool" where
  "buttonDisabled s \<longleftrightarrow> isLoading s \<or> trim (input s) = [] \<or> apiKeyError s"

section \<open>Events\<close>

text \<open>
  The handlers run one at a time, each on the state the last one left: \<open>Change t\<close> is
  the text field's \<open>onChange\<close> with the new text, \<open>Submit\<close> the form's \<open>onSubmit\<close>, and
  \<open>Settle x result\<close> the settling of a suspended request whose closure captured \<open>x\<close>.
\<close>

datatype event = Change string | Submit | Settle string outcome

fun step :: "(string \<Rightarrow> string + json) \<Rightarrow> string option \<Rightarrow> app \<Rightarrow> event \<Rightarrow> app" where
  "step parse API_KEY s (Change t) = s\<lparr>input := t\<rparr>"
| "step parse API_KEY s Submit = handleSubmit API_KEY s"
| "step parse API_KEY s (Settle x result) =
     (if x \<in> set (suspended s) then generatePackingList_resume parse x result s else s)"

fun step_src :: "(string \<Rightarrow> string + json) \<Rightarrow> string option \<Rightarrow> app \<Rightarrow> event \<Rightarrow> app" where
  "step_src parse API_KEY s (Change t) = s\<lparr>input := t\<rparr>"
| "step_src parse API_KEY s Submit = handleSubmit_src API_KEY s"
| "step_src parse API_KEY s (Settle x result) =
     (if x \<in> set (suspended s) then generatePackingList_resume_src parse x result s else s)"

definition run :: "(string \<Rightarrow> string + json) \<Rightarrow> string option \<Rightarrow> event list \<Rightarrow> app" where
  "run parse API_KEY evs = foldl (step parse API_KEY) (init API_KEY) evs"

definition run_src :: "(string \<Rightarrow> string + json) \<Rightarrow> string option \<Rightarrow> event list \<Rightarrow> app" where
  "run_src parse API_KEY evs = foldl (step_src parse API_KEY) (init API_KEY) evs"

section \<open>Notions used in the statements\<close>

text \<open>
  The response the spec calls wrapped: the payload between an opening \<open>```json\<close> line
  and a closing \<open>```\<close> line.
\<close>

definition wrapFence :: "string \<Rightarrow> string" where
  "wrapFence payload = ''```json'' @ [newline] @ payload @ [newline] @ ''```''"

text \<open>
  The same response with or without the newline behind the opening marker (\<open>a\<close>) and
  the newline before the closing marker (\<open>b\<close>); \<open>wrapFence\<close> has both.
\<close>

definition wrapFenceWith :: "bool \<Rightarrow> bool \<Rightarrow> string \<Rightarrow> string" where
  "wrapFenceWith a b payload =
     ''```json'' @ (if a then [newline] else []) @ payload
     @ (if b then [newline] else []) @ ''```''"

text \<open>The text \<open>s\<close> ends with the text \<open>t\<close>.\<close>

definition endsWith :: "string \<Rightarrow> string \<Rightarrow> bool" where
  "endsWith s t \<longleftrightarrow> take (length t) (rev s) = rev t"

text \<open>
  A run of appended message pairs: for each \<open>(x, a)\<close> the user message \<open>x\<close> and then
  the assistant message \<open>a\<close>.
\<close>

definition pairs :: "(string \<times> string) list \<Rightarrow> message list" where
  "pairs ps = concat (map (\<lambda>(x, a). [userMsg x, assistantMsg a]) ps)"

text \<open>
  At most one invocation is suspended, and the pending flag is set exactly while one is.
\<close>

definition oneInFlight :: "app \<Rightarrow> bool" where
  "oneInFlight s \<longleftrightarrow> length (suspended s) \<le> 1 \<and> (isLoading s \<longleftrightarrow> suspended s \<noteq> [])"

text \<open>A text that neither starts nor ends with white space.\<close>

definition trimmed :: "string \<Rightarrow> bool" where
  "trimmed t \<longleftrightarrow> t = [] \<or> (\<not> isWhiteSpace (hd t) \<and> \<not> isWhiteSpace (last t))"

text \<open>
  A reader that is given \<open>s\<close> and leaves \<open>r\<close> behind has read at least one character,
  and the last character it read satisfies \<open>P\<close>.
\<close>

definition consumed :: "string \<Rightarrow> string \<Rightarrow> (char \<Rightarrow> bool) \<Rightarrow> bool" where
  "consumed s r P \<longleftrightarrow> (\<exists>a. s = a @ r \<and> a \<noteq> [] \<and> P (last a))"

text \<open>
  What a bound \<open>n\<close> on the depth guarantees for each of the three readers: a result
  leaves a shorter text behind, and every bound of at least twice the number of characters
  read (and one more for a list of elements or members) gives the same result.
\<close>

definition valueOk :: "nat \<Rightarrow> bool" where
  "valueOk n \<longleftrightarrow>
     (\<forall>s v r. parseValue n s = Some (v, r) \<longrightarrow>
        length r < length s
        \<and> (\<forall>m. 2 * (length s - length r) \<le> m \<longrightarrow> parseValue m s = Some (v, r)))"

definition elementsOk :: "nat \<Rightarrow> bool" where
  "elementsOk n \<longleftrightarrow>
     (\<forall>s vs r. parseElements n s = Some (vs, r) \<longrightarrow>
        length r < length s
        \<and> (\<forall>m. 2 * (length s - length r) + 1 \<le> m \<longrightarrow> parseElements m s = Some (vs, r)))"

definition membersOk :: "nat \<Rightarrow> bool" where
  "membersOk n \<longleftrightarrow>
     (\<forall>s ms r. parseMembers n s = Some (ms, r) \<longrightarrow>
        length r < length s
        \<and> (\<forall>m. 2 * (length s - length r) + 1 \<le> m \<longrightarrow> parseMembers m s = Some (ms, r)))"

text \<open>
  Concrete inputs: the page with a key configured and \<open>x\<close> typed into the field, and the
  response of the spec's example with the value it denotes.
\<close>

definition typed :: "string \<Rightarrow> app" where
  "typed x = (init (Some ''key''))\<lparr>input := x\<rparr>"

definition exampleText :: string where
  "exampleText =
     ''{'' @ [CHR 0x22] @ ''categories'' @ [CHR 0x22] @ '':[{'' @ [CHR 0x22] @ ''name''
     @ [CHR 0x22] @ '':'' @ [CHR 0x22] @ ''Clothing'' @ [CHR 0x22] @ '','' @ [CHR 0x22]
     @ ''items'' @ [CHR 0x22] @ '':['' @ [CHR 0x22] @ ''Shirt'' @ [CHR 0x22] @ '',''
     @ [CHR 0x22] @ ''Pants'' @ [CHR 0x22] @ '']}]}''"

definition exampleList :: json where
  "exampleList =
     JObject [(''categories'',
       JArray [JObject [(''name'', JString ''Clothing''),
                        (''items'', JArray [JString ''Shirt'', JString ''Pants''])]])]"

text \<open>
  The example of the spec with white space around it, and a payload of the
  \<open>PackingList\<close> shape that holds single and double backticks.
\<close>

definition paddedText :: string where
  "paddedText = '' '' @ exampleText @ [newline]"

definition tickText :: string where
  "tickText =
     ''{'' @ [CHR 0x22] @ ''categories'' @ [CHR 0x22] @ '':[{'' @ [CHR 0x22] @ ''name''
     @ [CHR 0x22] @ '':'' @ [CHR 0x22] @ ''a`b'' @ [CHR 0x22] @ '','' @ [CHR 0x22]
     @ ''items'' @ [CHR 0x22] @ '':['' @ [CHR 0x22] @ ''``'' @ [CHR 0x22] @ '']}]}''"

definition tickList :: json where
  "tickList =
     JObject [(''categories'',
       JArray [JObject [(''name'', JString ''a`b''), (''items'', JArray [JString ''``''])]])]"

text \<open>
  A payload of the \<open>PackingList\<close> shape whose one category is named by three
  backticks, and the values it denotes before and after cleaning.
\<close>

definition backtickText :: string where
  "backtickText =
     ''{'' @ [CHR 0x22] @ ''categories'' @ [CHR 0x22] @ '':[{'' @ [CHR 0x22] @ ''name''
     @ [CHR 0x22] @ '':'' @ [CHR 0x22] @ ''```'' @ [CHR 0x22] @ '','' @ [CHR 0x22]
     @ ''items'' @ [CHR 0x22] @ '':[]}]}''"

definition backtickList :: "string \<Rightarrow> json" where
  "backtickList name =
     JObject [(''categories'',
       JArray [JObject [(''name'', JString name), (''items'', JArray [])]])]"

section \<open>Auxiliary lemmas\<close>

lemmas ctl_defs = submit_def handleSubmit_def generatePackingList_begin_def
  generatePackingList_resume_def

lemmas ctl_src_defs = submit_src_def handleSubmit_src_def generatePackingList_begin_src_def
  generatePackingList_resume_src_def catch_src_def

lemma typed_fields:
  "messages (typed x) = []" "input (typed x) = x" "\<not> isLoading (typed x)"
  "packingList (typed x) = JNull" "\<not> apiKeyError (typed x)" "calls (typed x) = []"
  "suspended (typed x) = []" "\<not> keyMissing (Some ''key'')"
  by (simp_all add: typed_def init_def keyMissing_def)

lemma clean_exampleText: "cleanText exampleText = exampleText"
  by code_simp

lemma parse_exampleText: "JSON_parse exampleText = Inr exampleList"
  by code_simp

lemma trim_Nil: "trim [] = []"
  by (simp add: trim_def)

lemma trim_examples:
  "trim ''Beach'' \<noteq> []" "trim ''Again'' \<noteq> []" "trim ''X'' \<noteq> []" "trim ''   '' = []"
  "trim exampleText = exampleText"
  by code_simp+

lemma parse_examples:
  "JSON_parse ''not json'' = Inl ''Unexpected token''"
  "JSON_parse (cleanText ''not json'') = Inl ''Unexpected token''"
  "JSON_parse (cleanText ''42'') = Inr (JNumber 42 0)"
  "JSON_parse (cleanText ''[]'') = Inr (JArray [])"
  "JSON_parse (cleanText ''{}'') = Inr (JObject [])"
  by code_simp+

lemma includes_examples:
  "includes_str ''[400] API_KEY_INVALID'' ''API_KEY_INVALID''"
  "\<not> includes_str ''[429] RATE_LIMIT_EXCEEDED'' ''API_KEY_INVALID''"
  "includes_str ''[429] RATE_LIMIT_EXCEEDED'' ''RATE_LIMIT_EXCEEDED''"
  "\<not> includes_str ''Unexpected token'' ''API_KEY_INVALID''"
  by code_simp+

lemma marker_examples:
  "\<not> includes_str exampleText ''```''" "\<not> includes_str tickText ''```''"
  "\<not> includes_str paddedText ''```''"
  "\<not> endsWith tickText (newline # ''`'')" "\<not> endsWith tickText (newline # ''``'')"
  "trim tickText = tickText" "trim paddedText = exampleText"
  "includes_str backtickText ''```''"
  by code_simp+

lemma parse_more_examples:
  "JSON_parse tickText = Inr tickList"
  "JSON_parse paddedText = Inr exampleList"
  "JSON_parse (trim paddedText) = Inr exampleList"
  "JSON_parse backtickText = Inr (backtickList ''```'')"
  "JSON_parse (cleanText backtickText) = Inr (backtickList [])"
  "backtickList [] \<noteq> backtickList ''```''"
  by code_simp+

subsection \<open>The bound of the JSON reader is enough\<close>

lemma length_skipWs: "length (skipWs s) \<le> length s"
  by (simp add: skipWs_def length_dropWhile_le)

lemma parseChars_shorter: "parseChars cs = Some (k, r) \<Longrightarrow> length r < length cs"
proof (induction cs arbitrary: k r rule: parseChars.induct)
  case 1
  then show ?case by simp
next
  case (2 c)
  then show ?case by (simp split: if_splits)
next
  case (3 c e cs)
  then show ?case
    by (fastforce split: if_splits option.splits)
qed

lemma signStage_length: "signStage s = (b, r) \<Longrightarrow> length r \<le> length s"
  by (auto simp: signStage_def split: if_splits)

lemma digitsStage_length: "digitsStage s = (ds, r) \<Longrightarrow> length ds + length r = length s"
  by (metis digitsStage_def length_append prod.inject takeWhile_dropWhile_id)

lemma fracStage_length: "fracStage s = (b, ds, r) \<Longrightarrow> length r \<le> length s"
  by (auto simp: fracStage_def split: if_splits dest!: digitsStage_length)

lemma expStage_length: "expStage s = (b, n, ds, r) \<Longrightarrow> length r \<le> length s"
  by (auto simp: expStage_def split: if_splits dest!: digitsStage_length)

lemma parseNumber_shorter:
  assumes "parseNumber s = Some (v, r)"
  shows "length r < length s"
proof -
  obtain neg s1 where 1: "signStage s = (neg, s1)" by (cases "signStage s")
  obtain ip s2 where 2: "digitsStage s1 = (ip, s2)" by (cases "digitsStage s1")
  obtain hasFrac fp s3 where 3: "fracStage s2 = (hasFrac, fp, s3)"
    by (cases "fracStage s2")
  obtain hasExp eneg ep s4 where 4: "expStage s3 = (hasExp, eneg, ep, s4)"
    by (cases "expStage s3")
  have "ip \<noteq> []" and "r = s4"
    using assms 1 2 3 4 by (simp_all add: parseNumber_def split: if_splits)
  then show ?thesis
    using signStage_length [OF 1] digitsStage_length [OF 2] fracStage_length [OF 3]
      expStage_length [OF 4]
    by (cases ip) simp_all
qed

lemma drop_shorter: "take n s = w \<Longrightarrow> w \<noteq> [] \<Longrightarrow> length (drop n s) < length s"
  by (cases s; cases n) auto

lemma parseScalar_shorter:
  assumes "parseScalar s = Some (v, r)"
  shows "length r < length s"
proof (cases "take 1 s = [CHR 0x22]")
  case True
  then obtain k where "parseChars (drop 1 s) = Some (k, r)"
    using assms by (auto simp: parseScalar_def)
  then have "length r < length (drop 1 s)"
    by (rule parseChars_shorter)
  then show ?thesis by simp
next
  case q: False
  show ?thesis
  proof (cases "take 4 s = ''true''")
    case True
    then have "r = drop 4 s" using assms q by (simp add: parseScalar_def)
    then show ?thesis using drop_shorter [OF True] by simp
  next
    case t: False
    show ?thesis
    proof (cases "take 5 s = ''false''")
      case True
      then have "r = drop 5 s" using assms q t by (simp add: parseScalar_def)
      then show ?thesis using drop_shorter [OF True] by simp
    next
      case f: False
      show ?thesis
      proof (cases "take 4 s = ''null''")
        case True
        then have "r = drop 4 s" using assms q t f by (simp add: parseScalar_def)
        then show ?thesis using drop_shorter [OF True] by simp
      next
        case False
        then have "parseNumber s = Some (v, r)"
          using assms q t f by (simp add: parseScalar_def)
        then show ?thesis by (rule parseNumber_shorter)
      qed
    qed
  qed
qed


lemma skipWs_Cons_length: "skipWs s = c # cs \<Longrightarrow> length cs < length s"
  using length_skipWs [of s] by simp

lemma map_apfst_Some:
  "map_option (apfst f) x = Some (v, r) \<Longrightarrow> \<exists>y. x = Some (y, r) \<and> v = f y"
  by (cases x) auto

lemma valueOk_Suc:
  assumes E: "elementsOk n" and M: "membersOk n"
  shows "valueOk (Suc n)"
  unfolding valueOk_def
proof (intro allI impI)
  fix s v r
  assume a: "parseValue (Suc n) s = Some (v, r)"
  then obtain c cs where t: "skipWs s = c # cs"
    by (cases "skipWs s") simp_all
  have ls: "length cs < length s"
    using t by (rule skipWs_Cons_length)
  let ?body = "\<lambda>m'.
      if c = CHR ''{'' then
         (if take 1 (skipWs cs) = ''}'' then Some (JObject [], drop 1 (skipWs cs))
          else map_option (apfst JObject) (parseMembers m' cs))
       else if c = CHR ''['' then
         (if take 1 (skipWs cs) = '']'' then Some (JArray [], drop 1 (skipWs cs))
          else map_option (apfst JArray) (parseElements m' cs))
       else parseScalar (c # cs)"
  have step: "parseValue (Suc m') s = ?body m'" for m'
    using t by simp
  have a': "?body n = Some (v, r)"
    using a by (simp only: step)
  consider (leaf) "length r < length s" "\<And>m'. parseValue (Suc m') s = Some (v, r)"
    | (obj) ms where "c = CHR ''{''" "take 1 (skipWs cs) \<noteq> ''}''"
        "parseMembers n cs = Some (ms, r)" "v = JObject ms"
    | (arr) vs where "c \<noteq> CHR ''{''" "c = CHR ''[''" "take 1 (skipWs cs) \<noteq> '']''"
        "parseElements n cs = Some (vs, r)" "v = JArray vs"
  proof (cases "c = CHR ''{''")
    case True
    show ?thesis
    proof (cases "take 1 (skipWs cs) = ''}''")
      case e: True
      have b: "?body m' = Some (JObject [], drop 1 (skipWs cs))" for m'
        by (simp only: True e if_True simp_thms)
      then have r: "Some (JObject [], drop 1 (skipWs cs)) = Some (v, r)"
        using a' by (simp only:)
      have "length (drop 1 (skipWs cs)) \<le> length cs"
        using length_skipWs [of cs] by simp
      then have "length r < length s" using ls r by auto
      moreover have "parseValue (Suc m') s = Some (v, r)" for m'
        using b [of m'] r by (simp only: step)
      ultimately show ?thesis by (rule leaf)
    next
      case False
      have "?body n = map_option (apfst JObject) (parseMembers n cs)"
        by (simp only: True False if_True if_False simp_thms)
      then have "map_option (apfst JObject) (parseMembers n cs) = Some (v, r)"
        using a' by (simp only:)
      from map_apfst_Some [OF this]
      obtain ms where "parseMembers n cs = Some (ms, r)" "v = JObject ms"
        by blast
      with True False show ?thesis by (rule obj)
    qed
  next
    case no: False
    show ?thesis
    proof (cases "c = CHR ''[''")
      case True
      show ?thesis
      proof (cases "take 1 (skipWs cs) = '']''")
        case e: True
        have b: "?body m' = Some (JArray [], drop 1 (skipWs cs))" for m'
          using True e by simp
        then have r: "Some (JArray [], drop 1 (skipWs cs)) = Some (v, r)"
          using a' by (simp only:)
        have "length (drop 1 (skipWs cs)) \<le> length cs"
          using length_skipWs [of cs] by simp
        then have "length r < length s" using ls r by auto
        moreover have "parseValue (Suc m') s = Some (v, r)" for m'
          using b [of m'] r by (simp only: step)
        ultimately show ?thesis by (rule leaf)
      next
        case False
        have "?body n = map_option (apfst JArray) (parseElements n cs)"
          using True False by simp
        then have "map_option (apfst JArray) (parseElements n cs) = Some (v, r)"
          using a' by (simp only:)
        from map_apfst_Some [OF this]
        obtain vs where "parseElements n cs = Some (vs, r)" "v = JArray vs"
          by blast
        with no True False show ?thesis by (rule arr)
      qed
    next
      case False
      have b: "?body m' = parseScalar (c # cs)" for m'
        by (simp only: no False if_False simp_thms)
      then have p: "parseScalar (c # cs) = Some (v, r)"
        using a' by (simp only:)
      then have "length r < length (c # cs)"
        by (rule parseScalar_shorter)
      then have "length r < length s"
        using length_skipWs [of s] t by simp
      moreover have "parseValue (Suc m') s = Some (v, r)" for m'
        using b [of m'] p by (simp only: step)
      ultimately show ?thesis by (rule leaf)
    qed
  qed
  then show "length r < length s
      \<and> (\<forall>m. 2 * (length s - length r) \<le> m \<longrightarrow> parseValue m s = Some (v, r))"
  proof cases
    case leaf
    have "parseValue m s = Some (v, r)" if "2 * (length s - length r) \<le> m" for m
    proof -
      from that leaf(1) obtain m' where "m = Suc m'" by (cases m) auto
      then show ?thesis using leaf(2) by (simp only:)
    qed
    then show ?thesis using leaf(1) by blast
  next
    case obj
    from M obj(3) have l: "length r < length cs"
      and f: "\<And>m. 2 * (length cs - length r) + 1 \<le> m \<Longrightarrow> parseMembers m cs = Some (ms, r)"
      unfolding membersOk_def by blast+
    have "parseValue m s = Some (v, r)" if "2 * (length s - length r) \<le> m" for m
    proof -
      from that l ls obtain m' where m: "m = Suc m'" by (cases m) auto
      then have "2 * (length cs - length r) + 1 \<le> m'" using that l ls by simp
      then have "parseMembers m' cs = Some (ms, r)" by (rule f)
      then have "?body m' = Some (v, r)"
        using obj by simp
      then show ?thesis by (simp only: m step)
    qed
    moreover have "length r < length s" using l ls by simp
    ultimately show ?thesis by blast
  next
    case arr
    from E arr(4) have l: "length r < length cs"
      and f: "\<And>m. 2 * (length cs - length r) + 1 \<le> m \<Longrightarrow> parseElements m cs = Some (vs, r)"
      unfolding elementsOk_def by blast+
    have "parseValue m s = Some (v, r)" if "2 * (length s - length r) \<le> m" for m
    proof -
      from that l ls obtain m' where m: "m = Suc m'" by (cases m) auto
      then have "2 * (length cs - length r) + 1 \<le> m'" using that l ls by simp
      then have "parseElements m' cs = Some (vs, r)" by (rule f)
      then have "?body m' = Some (v, r)"
        using arr by simp
      then show ?thesis by (simp only: m step)
    qed
    moreover have "length r < length s" using l ls by simp
    ultimately show ?thesis by blast
  qed
qed


lemma elementsOk_Suc:
  assumes V: "valueOk n" and E: "elementsOk n"
  shows "elementsOk (Suc n)"
  unfolding elementsOk_def
proof (intro allI impI)
  fix s vs r
  assume a: "parseElements (Suc n) s = Some (vs, r)"
  then obtain v r1 where pv: "parseValue n s = Some (v, r1)"
    by (cases "parseValue n s") auto
  with V have l1: "length r1 < length s"
    and f1: "\<And>m. 2 * (length s - length r1) \<le> m \<Longrightarrow> parseValue m s = Some (v, r1)"
    unfolding valueOk_def by blast+
  from a pv obtain c cs where t: "skipWs r1 = c # cs"
    by (cases "skipWs r1") simp_all
  have l2: "length cs < length r1"
    using t by (rule skipWs_Cons_length)
  let ?rest = "\<lambda>m'. if c = CHR '','' then map_option (apfst ((#) v)) (parseElements m' cs)
       else if c = CHR '']'' then Some ([v], cs) else None"
  have a': "?rest n = Some (vs, r)"
    using a pv t by simp
  have step: "parseElements (Suc m') s = ?rest m'" if "parseValue m' s = Some (v, r1)" for m'
    using that t by simp
  show "length r < length s
      \<and> (\<forall>m. 2 * (length s - length r) + 1 \<le> m \<longrightarrow> parseElements m s = Some (vs, r))"
  proof (cases "c = CHR '',''")
    case True
    then have "map_option (apfst ((#) v)) (parseElements n cs) = Some (vs, r)"
      using a' by simp
    from map_apfst_Some [OF this]
    obtain vs' where pe: "parseElements n cs = Some (vs', r)" and vs: "vs = v # vs'"
      by blast
    from E pe have l3: "length r < length cs"
      and f3: "\<And>m. 2 * (length cs - length r) + 1 \<le> m \<Longrightarrow> parseElements m cs = Some (vs', r)"
      unfolding elementsOk_def by blast+
    have "parseElements m s = Some (vs, r)" if "2 * (length s - length r) + 1 \<le> m" for m
    proof -
      from that obtain m' where m: "m = Suc m'" by (cases m) auto
      have "2 * (length s - length r1) \<le> m'" using that m l1 l2 l3 by simp
      then have p1: "parseValue m' s = Some (v, r1)" by (rule f1)
      have "2 * (length cs - length r) + 1 \<le> m'" using that m l1 l2 l3 by simp
      then have "parseElements m' cs = Some (vs', r)" by (rule f3)
      then have "?rest m' = Some (vs, r)" using True vs by simp
      then show ?thesis using step [OF p1] m by (simp only:)
    qed
    moreover have "length r < length s" using l1 l2 l3 by simp
    ultimately show ?thesis by blast
  next
    case False
    then have c: "c = CHR '']''" and r: "r = cs" and vs: "vs = [v]"
      using a' by (simp_all split: if_splits)
    have "parseElements m s = Some (vs, r)" if "2 * (length s - length r) + 1 \<le> m" for m
    proof -
      from that obtain m' where m: "m = Suc m'" by (cases m) auto
      have "2 * (length s - length r1) \<le> m'" using that m l1 l2 r by simp
      then have p1: "parseValue m' s = Some (v, r1)" by (rule f1)
      have "?rest m' = Some (vs, r)" using False c r vs by simp
      then show ?thesis using step [OF p1] m by (simp only:)
    qed
    moreover have "length r < length s" using l1 l2 r by simp
    ultimately show ?thesis by blast
  qed
qed


lemma membersOk_Suc:
  assumes V: "valueOk n" and M: "membersOk n"
  shows "membersOk (Suc n)"
  unfolding membersOk_def
proof (intro allI impI)
  fix s ms r
  assume a: "parseMembers (Suc n) s = Some (ms, r)"
  then obtain q s1 where t0: "skipWs s = q # s1"
    by (cases "skipWs s") simp_all
  have q: "q = CHR 0x22"
    using a t0 by (simp split: if_splits)
  from a t0 q obtain k s2 where pk: "parseChars s1 = Some (k, s2)"
    by (cases "parseChars s1") auto
  have colon: "take 1 (skipWs s2) = '':''"
    using a t0 q pk by (simp split: if_splits)
  let ?s3 = "drop 1 (skipWs s2)"
  from a t0 q pk colon obtain v r1 where pv: "parseValue n ?s3 = Some (v, r1)"
    by (cases "parseValue n ?s3") auto
  with V have l1: "length r1 < length ?s3"
    and f1: "\<And>m. 2 * (length ?s3 - length r1) \<le> m \<Longrightarrow> parseValue m ?s3 = Some (v, r1)"
    unfolding valueOk_def by blast+
  from a t0 q pk colon pv obtain c cs where t: "skipWs r1 = c # cs"
    by (cases "skipWs r1") simp_all
  have l2: "length cs < length r1"
    using t by (rule skipWs_Cons_length)
  have l0: "length ?s3 < length s"
    using skipWs_Cons_length [OF t0] parseChars_shorter [OF pk] length_skipWs [of s2]
    by simp
  let ?rest = "\<lambda>m'. if c = CHR '','' then map_option (apfst ((#) (k, v))) (parseMembers m' cs)
       else if c = CHR ''}'' then Some ([(k, v)], cs) else None"
  have a': "?rest n = Some (ms, r)"
    using a t0 q pk colon pv t by simp
  have step: "parseMembers (Suc m') s = ?rest m'"
    if "parseValue m' ?s3 = Some (v, r1)" for m'
    using that t0 q pk colon t by simp
  show "length r < length s
      \<and> (\<forall>m. 2 * (length s - length r) + 1 \<le> m \<longrightarrow> parseMembers m s = Some (ms, r))"
  proof (cases "c = CHR '',''")
    case True
    then have "map_option (apfst ((#) (k, v))) (parseMembers n cs) = Some (ms, r)"
      using a' by simp
    from map_apfst_Some [OF this]
    obtain ms' where pm: "parseMembers n cs = Some (ms', r)" and ms: "ms = (k, v) # ms'"
      by blast
    from M pm have l3: "length r < length cs"
      and f3: "\<And>m. 2 * (length cs - length r) + 1 \<le> m \<Longrightarrow> parseMembers m cs = Some (ms', r)"
      unfolding membersOk_def by blast+
    have "parseMembers m s = Some (ms, r)" if "2 * (length s - length r) + 1 \<le> m" for m
    proof -
      from that obtain m' where m: "m = Suc m'" by (cases m) auto
      have "2 * (length ?s3 - length r1) \<le> m'" using that m l0 l1 l2 l3 by simp
      then have p1: "parseValue m' ?s3 = Some (v, r1)" by (rule f1)
      have "2 * (length cs - length r) + 1 \<le> m'" using that m l0 l1 l2 l3 by simp
      then have "parseMembers m' cs = Some (ms', r)" by (rule f3)
      then have "?rest m' = Some (ms, r)" using True ms by simp
      then show ?thesis using step [OF p1] m by (simp only:)
    qed
    moreover have "length r < length s" using l0 l1 l2 l3 by simp
    ultimately show ?thesis by blast
  next
    case False
    then have c: "c = CHR ''}''" and r: "r = cs" and ms: "ms = [(k, v)]"
      using a' by (simp_all split: if_splits)
    have "parseMembers m s = Some (ms, r)" if "2 * (length s - length r) + 1 \<le> m" for m
    proof -
      from that obtain m' where m: "m = Suc m'" by (cases m) auto
      have "2 * (length ?s3 - length r1) \<le> m'" using that m l0 l1 l2 r by simp
      then have p1: "parseValue m' ?s3 = Some (v, r1)" by (rule f1)
      have "?rest m' = Some (ms, r)" using False c r ms by simp
      then show ?thesis using step [OF p1] m by (simp only:)
    qed
    moreover have "length r < length s" using l0 l1 l2 r by simp
    ultimately show ?thesis by blast
  qed
qed

lemma fuel_ok: "valueOk n \<and> elementsOk n \<and> membersOk n"
proof (induction n)
  case 0
  show ?case by (simp add: valueOk_def elementsOk_def membersOk_def)
next
  case (Suc n)
  then show ?case
    using valueOk_Suc elementsOk_Suc membersOk_Suc by blast
qed

lemma parseValue_fuel:
  assumes "parseValue n text = Some (v, r)"
  shows "parseValue (2 * length text + 2) text = Some (v, r)"
proof -
  have "valueOk n" using fuel_ok by blast
  with assms have h: "\<And>m. 2 * (length text - length r) \<le> m \<Longrightarrow> parseValue m text = Some (v, r)"
    unfolding valueOk_def by blast
  show ?thesis by (rule h) simp
qed

lemma JSON_parse_any_fuel:
  "JSON_parse text = Inr v \<longleftrightarrow> (\<exists>n r. parseValue n text = Some (v, r) \<and> skipWs r = [])"
proof
  assume "JSON_parse text = Inr v"
  then show "\<exists>n r. parseValue n text = Some (v, r) \<and> skipWs r = []"
    by (fastforce simp del: parseValue.simps simp: JSON_parse_def
        split: option.splits if_splits)
next
  assume "\<exists>n r. parseValue n text = Some (v, r) \<and> skipWs r = []"
  then obtain n r where p: "parseValue n text = Some (v, r)" and r: "skipWs r = []"
    by blast
  from p have "parseValue (2 * length text + 2) text = Some (v, r)"
    by (rule parseValue_fuel)
  then show "JSON_parse text = Inr v"
    using r by (simp del: parseValue.simps add: JSON_parse_def)
qed

subsection \<open>Fence removal\<close>

lemma take_before_newline:
  "newline \<notin> set w \<Longrightarrow> n = length w \<Longrightarrow>
     take n (xs @ newline # ys) = w \<longleftrightarrow> take n xs = w"
proof (induction w arbitrary: xs n)
  case Nil
  then show ?case by simp
next
  case (Cons a w)
  then show ?case by (cases xs) auto
qed

lemma take7: "take 7 (xs @ newline # ys) = ''```json'' \<longleftrightarrow> take 7 xs = ''```json''"
  by (rule take_before_newline) (simp_all add: newline_def)

lemma take3: "take 3 (xs @ newline # ys) = ''```'' \<longleftrightarrow> take 3 xs = ''```''"
  by (rule take_before_newline) (simp_all add: newline_def)

lemma take4: "take 4 ((c # cs) @ newline # ys) = newline # ''```'' \<longleftrightarrow> take 4 (c # cs) = newline # ''```''"
  using take3 [of cs ys] by simp

lemma take_eq_length: "take n xs = w \<Longrightarrow> length w = n \<Longrightarrow> n \<le> length xs"
  by (metis length_take min.cobounded1 min.commute)


lemma skipNewline_append: "r \<noteq> [] \<Longrightarrow> skipNewline (r @ ys) = skipNewline r @ ys"
  by (cases r) auto

lemma removeFences_unfold:
  "removeFences (c # cs) =
     (if take 7 (c # cs) = ''```json'' then removeFences (skipNewline (drop 7 (c # cs)))
      else if take 4 (c # cs) = newline # ''```'' then removeFences (drop 4 (c # cs))
      else if take 3 (c # cs) = ''```'' then removeFences (drop 3 (c # cs))
      else c # removeFences cs)"
  by (rule removeFences.simps)

lemma removeFences_open:
  assumes "take 7 (c # cs) = ''```json''"
  shows "removeFences (c # cs) = removeFences (skipNewline (drop 7 (c # cs)))"
  by (subst removeFences_unfold) (simp only: assms if_True simp_thms)

lemma removeFences_close4:
  assumes "take 7 (c # cs) \<noteq> ''```json''" and "take 4 (c # cs) = newline # ''```''"
  shows "removeFences (c # cs) = removeFences (drop 4 (c # cs))"
  by (subst removeFences_unfold) (simp only: assms if_True if_False simp_thms)

lemma removeFences_close3:
  assumes "take 7 (c # cs) \<noteq> ''```json''" and "take 4 (c # cs) \<noteq> newline # ''```''"
    and "take 3 (c # cs) = ''```''"
  shows "removeFences (c # cs) = removeFences (drop 3 (c # cs))"
  by (subst removeFences_unfold) (simp only: assms if_True if_False simp_thms)

lemma removeFences_keep:
  assumes "take 7 (c # cs) \<noteq> ''```json''" and "take 4 (c # cs) \<noteq> newline # ''```''"
    and "take 3 (c # cs) \<noteq> ''```''"
  shows "removeFences (c # cs) = c # removeFences cs"
  by (subst removeFences_unfold) (simp only: assms if_False simp_thms)

lemma removeFences_closing: "removeFences (p @ newline # ''```'') = removeFences p"
proof (induction p rule: removeFences.induct)
  case 1
  show ?case by (simp add: newline_def)
next
  case (2 c cs)
  let ?suf = "newline # ''```''"
  let ?xs = "c # cs"
  let ?ys = "c # (cs @ ?suf)"
  have t7: "take 7 ?ys = ''```json'' \<longleftrightarrow> take 7 ?xs = ''```json''"
    using take7 [of ?xs "''```''"] by (simp only: append_Cons)
  have t4: "take 4 ?ys = ?suf \<longleftrightarrow> take 4 ?xs = ?suf"
    using take4 [of c cs "''```''"] by (simp only: append_Cons)
  have t3: "take 3 ?ys = ''```'' \<longleftrightarrow> take 3 ?xs = ''```''"
    using take3 [of ?xs "''```''"] by (simp only: append_Cons)
  have "removeFences ?ys = removeFences ?xs"
  proof (cases "take 7 ?xs = ''```json''")
    case True
    then have len: "7 \<le> length ?xs"
      by (rule take_eq_length) simp
    then have d: "drop 7 ?ys = drop 7 ?xs @ ?suf"
      by simp
    have "removeFences (skipNewline (drop 7 ?xs @ ?suf)) = removeFences (skipNewline (drop 7 ?xs))"
    proof (cases "drop 7 ?xs = []")
      case True
      then show ?thesis by (simp add: newline_def)
    next
      case False
      then have "skipNewline (drop 7 ?xs @ ?suf) = skipNewline (drop 7 ?xs) @ ?suf"
        by (rule skipNewline_append)
      then show ?thesis
        using "2.IH"(1) [OF True] by (simp only:)
    qed
    moreover have "take 7 ?ys = ''```json''" using t7 True by blast
    ultimately show ?thesis
      using removeFences_open [OF True] removeFences_open [of c "cs @ ?suf"] d
      by (simp only:)
  next
    case n7: False
    then have m7: "take 7 ?ys \<noteq> ''```json''" using t7 by blast
    show ?thesis
    proof (cases "take 4 ?xs = ?suf")
      case True
      then have "4 \<le> length ?xs"
        by (rule take_eq_length) simp
      then have d: "drop 4 ?ys = drop 4 ?xs @ ?suf"
        by simp
      have m4: "take 4 ?ys = ?suf" using True t4 by blast
      show ?thesis
        using removeFences_close4 [OF n7 True] removeFences_close4 [OF m7 m4] d
          "2.IH"(2) [OF n7 True]
        by (simp only:)
    next
      case n4: False
      then have m4: "take 4 ?ys \<noteq> ?suf" using t4 by blast
      show ?thesis
      proof (cases "take 3 ?xs = ''```''")
        case True
        then have "3 \<le> length ?xs"
          by (rule take_eq_length) simp
        then have d: "drop 3 ?ys = drop 3 ?xs @ ?suf"
          by simp
        have m3: "take 3 ?ys = ''```''" using True t3 by blast
        show ?thesis
          using removeFences_close3 [OF n7 n4 True] removeFences_close3 [OF m7 m4 m3] d
            "2.IH"(3) [OF n7 n4 True]
          by (simp only:)
      next
        case n3: False
        then have m3: "take 3 ?ys \<noteq> ''```''" using t3 by blast
        show ?thesis
          using removeFences_keep [OF n7 n4 n3] removeFences_keep [OF m7 m4 m3]
            "2.IH"(4) [OF n7 n4 n3]
          by (simp only:)
      qed
    qed
  qed
  then show ?case by (simp only: append_Cons)
qed

lemma removeFences_opening: "removeFences (''```json'' @ newline # t) = removeFences t"
  by simp

lemma trim_trimmed: "trimmed t \<Longrightarrow> trim t = t"
proof (cases "t = []")
  case True
  then show ?thesis by (simp add: trim_def)
next
  case False
  assume "trimmed t"
  with False have h: "\<not> isWhiteSpace (hd t)" and l: "\<not> isWhiteSpace (last t)"
    by (simp_all add: trimmed_def)
  have "dropWhile isWhiteSpace t = t"
    using False h by (cases t) simp_all
  moreover have "dropWhile isWhiteSpace (rev t) = rev t"
    using False l by (cases "rev t") (simp_all add: last_rev [symmetric] hd_rev)
  ultimately show ?thesis by (simp add: trim_def)
qed

lemma trimmed_trim: "trimmed (trim s)"
proof -
  let ?u = "dropWhile isWhiteSpace s"
  let ?v = "dropWhile isWhiteSpace (rev ?u)"
  show ?thesis
  proof (cases "?v = []")
    case True
    then show ?thesis by (simp add: trimmed_def trim_def)
  next
    case False
    then have hv: "\<not> isWhiteSpace (hd ?v)"
      by (rule hd_dropWhile)
    from False have "rev ?u \<noteq> []" by (cases "rev ?u") simp_all
    then have u: "?u \<noteq> []" by simp
    then have hu: "\<not> isWhiteSpace (hd ?u)"
      by (rule hd_dropWhile)
    have "?v = drop (length (takeWhile isWhiteSpace (rev ?u))) (rev ?u)"
      by (rule dropWhile_eq_drop)
    moreover have "length (takeWhile isWhiteSpace (rev ?u)) < length (rev ?u)"
      using False by (metis calculation drop_all not_le_imp_less)
    ultimately have "last ?v = last (rev ?u)"
      by (metis last_drop)
    then have "last ?v = hd ?u"
      using u by (simp add: last_rev)
    then have "\<not> isWhiteSpace (hd (rev ?v))" "\<not> isWhiteSpace (last (rev ?v))"
      using hu hv False by (simp_all add: hd_rev last_rev)
    then show ?thesis
      by (simp add: trimmed_def trim_def)
  qed
qed

lemma trim_idem: "trim (trim s) = trim s"
  by (rule trim_trimmed) (rule trimmed_trim)

lemma set_trim: "set (trim s) \<subseteq> set s"
proof -
  have "set (trim s) \<subseteq> set (dropWhile isWhiteSpace s)"
    using set_dropWhileD [of _ isWhiteSpace "rev (dropWhile isWhiteSpace s)"]
    by (auto simp: trim_def)
  also have "\<dots> \<subseteq> set s"
    using set_dropWhileD [of _ isWhiteSpace s] by auto
  finally show ?thesis .
qed

lemma includes_marker_Cons:
  "includes_str (c # cs) ''```'' \<longleftrightarrow> take 3 (c # cs) = ''```'' \<or> includes_str cs ''```''"
proof -
  have len: "length ''```'' = 3" by simp
  show ?thesis by (subst includes_str.simps, subst len, rule refl)
qed

lemma take3_includes:
  assumes "take 3 cs = ''```''"
  shows "includes_str cs ''```''"
proof (cases cs)
  case Nil
  with assms show ?thesis by simp
next
  case (Cons a list)
  have "take 3 (a # list) = ''```''" using assms Cons by (simp only:)
  then show ?thesis unfolding Cons includes_marker_Cons by (rule disjI1)
qed

lemma take7_take3:
  assumes "take 7 xs = ''```json''"
  shows "take 3 xs = ''```''"
proof -
  have "take 3 xs = take 3 (take 7 xs)" by simp
  also have "\<dots> = take 3 ''```json''" by (simp only: assms)
  also have "\<dots> = ''```''" by simp
  finally show ?thesis .
qed

lemma take4_take3: "take 4 (c # cs) = newline # ''```'' \<longleftrightarrow> c = newline \<and> take 3 cs = ''```''"
  by simp

lemma removeFences_no_marker: "\<not> includes_str p ''```'' \<Longrightarrow> removeFences p = p"
proof (induction p)
  case Nil
  show ?case by simp
next
  case (Cons c cs)
  have n3: "take 3 (c # cs) \<noteq> ''```''" and t: "\<not> includes_str cs ''```''"
    using Cons.prems unfolding includes_marker_Cons by blast+
  have n7: "take 7 (c # cs) \<noteq> ''```json''"
    using n3 take7_take3 by blast
  have "take 3 cs \<noteq> ''```''"
    using t take3_includes by blast
  then have n4: "take 4 (c # cs) \<noteq> newline # ''```''"
    unfolding take4_take3 by blast
  show ?case
    using removeFences_keep [OF n7 n4 n3] Cons.IH [OF t] by (simp only:)
qed

lemma length_removeFences: "length (removeFences p) \<le> length p"
proof (induction p rule: removeFences.induct)
  case 1
  show ?case by simp
next
  case (2 c cs)
  show ?case
  proof (cases "take 7 (c # cs) = ''```json''")
    case True
    have "length (removeFences (skipNewline (drop 7 (c # cs)))) \<le> length (skipNewline (drop 7 (c # cs)))"
      using "2.IH"(1) [OF True] .
    also have "\<dots> \<le> length (drop 7 (c # cs))" by (rule length_skipNewline)
    also have "\<dots> \<le> length (c # cs)" by simp
    finally show ?thesis using removeFences_open [OF True] by (simp only:)
  next
    case n7: False
    show ?thesis
    proof (cases "take 4 (c # cs) = newline # ''```''")
      case True
      have "length (removeFences (drop 4 (c # cs))) \<le> length (drop 4 (c # cs))"
        using "2.IH"(2) [OF n7 True] .
      also have "\<dots> \<le> length (c # cs)" by simp
      finally show ?thesis using removeFences_close4 [OF n7 True] by (simp only:)
    next
      case n4: False
      show ?thesis
      proof (cases "take 3 (c # cs) = ''```''")
        case True
        have "length (removeFences (drop 3 (c # cs))) \<le> length (drop 3 (c # cs))"
          using "2.IH"(3) [OF n7 n4 True] .
        also have "\<dots> \<le> length (c # cs)" by simp
        finally show ?thesis using removeFences_close3 [OF n7 n4 True] by (simp only:)
      next
        case n3: False
        have "length (c # removeFences cs) \<le> length (c # cs)"
          using "2.IH"(4) [OF n7 n4 n3] by simp
        then show ?thesis using removeFences_keep [OF n7 n4 n3] by (simp only:)
      qed
    qed
  qed
qed

lemma removeFences_marker_shorter:
  "includes_str p ''```'' \<Longrightarrow> length (removeFences p) < length p"
proof (induction p)
  case Nil
  then show ?case by simp
next
  case (Cons c cs)
  show ?case
  proof (cases "take 7 (c # cs) = ''```json''")
    case True
    have "length (removeFences (skipNewline (drop 7 (c # cs)))) \<le> length (skipNewline (drop 7 (c # cs)))"
      by (rule length_removeFences)
    also have "\<dots> \<le> length (drop 7 (c # cs))" by (rule length_skipNewline)
    also have "\<dots> < length (c # cs)" by simp
    finally show ?thesis using removeFences_open [OF True] by (simp only:)
  next
    case n7: False
    show ?thesis
    proof (cases "take 4 (c # cs) = newline # ''```''")
      case True
      have "length (removeFences (drop 4 (c # cs))) \<le> length (drop 4 (c # cs))"
        by (rule length_removeFences)
      also have "\<dots> < length (c # cs)" by simp
      finally show ?thesis using removeFences_close4 [OF n7 True] by (simp only:)
    next
      case n4: False
      show ?thesis
      proof (cases "take 3 (c # cs) = ''```''")
        case True
        have "length (removeFences (drop 3 (c # cs))) \<le> length (drop 3 (c # cs))"
          by (rule length_removeFences)
        also have "\<dots> < length (c # cs)" by simp
        finally show ?thesis using removeFences_close3 [OF n7 n4 True] by (simp only:)
      next
        case n3: False
        then have "includes_str cs ''```''"
          using Cons.prems unfolding includes_marker_Cons by blast
        then have "length (c # removeFences cs) < length (c # cs)"
          using Cons.IH by simp
        then show ?thesis using removeFences_keep [OF n7 n4 n3] by (simp only:)
      qed
    qed
  qed
qed

lemma removeFences_id_iff: "removeFences p = p \<longleftrightarrow> \<not> includes_str p ''```''"
  using removeFences_no_marker [of p] removeFences_marker_shorter [of p] by fastforce

lemma length_trim: "length (trim s) \<le> length s"
proof -
  have "length (trim s) \<le> length (dropWhile isWhiteSpace s)"
    unfolding trim_def using length_dropWhile_le [of isWhiteSpace "rev (dropWhile isWhiteSpace s)"]
    by simp
  also have "\<dots> \<le> length s" by (rule length_dropWhile_le)
  finally show ?thesis .
qed

lemma cleanText_idem_iff:
  "cleanText (cleanText t) = cleanText t \<longleftrightarrow> \<not> includes_str (cleanText t) ''```''"
proof
  assume e: "cleanText (cleanText t) = cleanText t"
  show "\<not> includes_str (cleanText t) ''```''"
  proof
    assume "includes_str (cleanText t) ''```''"
    then have "length (removeFences (cleanText t)) < length (cleanText t)"
      by (rule removeFences_marker_shorter)
    moreover have "cleanText (cleanText t) = trim (removeFences (cleanText t))"
      by (rule cleanText_def)
    then have "length (cleanText (cleanText t)) \<le> length (removeFences (cleanText t))"
      using length_trim [of "removeFences (cleanText t)"] by (simp only:)
    ultimately have "length (cleanText (cleanText t)) < length (cleanText t)" by simp
    then show False using e by simp
  qed
next
  assume "\<not> includes_str (cleanText t) ''```''"
  then have "removeFences (cleanText t) = cleanText t"
    by (rule removeFences_no_marker)
  then have "cleanText (cleanText t) = trim (cleanText t)"
    by (simp add: cleanText_def)
  then show "cleanText (cleanText t) = cleanText t"
    by (simp add: cleanText_def trim_idem)
qed


lemma take3_append_marker:
  "take 3 (xs @ ''```'') = ''```'' \<longleftrightarrow>
     xs = [] \<or> xs = ''`'' \<or> xs = ''``'' \<or> take 3 xs = ''```''"
proof (cases xs)
  case Nil
  then show ?thesis by simp
next
  case c1: (Cons a as)
  show ?thesis
  proof (cases as)
    case Nil
    then show ?thesis using c1 by auto
  next
    case c2: (Cons b bs)
    show ?thesis
    proof (cases bs)
      case Nil
      then show ?thesis using c1 c2 by auto
    next
      case (Cons d ds)
      then show ?thesis using c1 c2 by auto
    qed
  qed
qed

lemma endsWith_Cons: "endsWith cs t \<Longrightarrow> endsWith (c # cs) t"
proof -
  assume e: "endsWith cs t"
  then have "length (take (length t) (rev cs)) = length (rev t)"
    by (simp only: endsWith_def)
  then have "length t \<le> length (rev cs)"
    by simp
  then have "take (length t) (rev cs @ [c]) = take (length t) (rev cs)"
    by simp
  then show ?thesis using e by (simp add: endsWith_def)
qed

lemma removeFences_closing_bare:
  assumes "\<not> includes_str q ''```''"
    and "\<not> endsWith q (newline # ''`'')" and "\<not> endsWith q (newline # ''``'')"
  shows "removeFences (q @ ''```'') = q
         \<or> (\<exists>q'. q = q' @ [newline] \<and> removeFences (q @ ''```'') = q')"
  using assms
proof (induction q)
  case Nil
  show ?case by simp
next
  case (Cons c cs)
  let ?y = "c # (cs @ ''```'')"
  have n3: "take 3 (c # cs) \<noteq> ''```''" and t: "\<not> includes_str cs ''```''"
    using Cons.prems(1) unfolding includes_marker_Cons by blast+
  have t3: "take 3 cs \<noteq> ''```''"
    using t take3_includes by blast
  have e1: "\<not> endsWith cs (newline # ''`'')" and e2: "\<not> endsWith cs (newline # ''``'')"
    using Cons.prems(2,3) endsWith_Cons by blast+
  note IH = Cons.IH [OF t e1 e2]
  have a3: "take 3 ?y = ''```'' \<longleftrightarrow> c # cs = ''`'' \<or> c # cs = ''``''"
    using take3_append_marker [of "c # cs"] n3 by (simp only: append_Cons) blast
  have a4: "take 4 ?y = newline # ''```'' \<longleftrightarrow> c = newline \<and> (cs = [] \<or> cs = ''`'' \<or> cs = ''``'')"
    using take3_append_marker [of cs] t3 take4_take3 [of c "cs @ ''```''"] by blast
  show ?case
  proof (cases "take 3 ?y = ''```''")
    case True
    then consider "c # cs = ''`''" | "c # cs = ''``''"
      using a3 by blast
    then have "removeFences ((c # cs) @ ''```'') = c # cs"
      by cases (simp_all add: newline_def)
    then show ?thesis by blast
  next
    case m3: False
    then have m7: "take 7 ?y \<noteq> ''```json''"
      using take7_take3 by blast
    show ?thesis
    proof (cases "take 4 ?y = newline # ''```''")
      case True
      then have c: "c = newline" and "cs = [] \<or> cs = ''`'' \<or> cs = ''``''"
        using a4 by blast+
      moreover have "cs \<noteq> ''`''"
        using Cons.prems(2) c by (auto simp: endsWith_def)
      moreover have "cs \<noteq> ''``''"
        using Cons.prems(3) c by (auto simp: endsWith_def)
      ultimately have cs: "cs = []" by blast
      have "removeFences ((c # cs) @ ''```'') = []"
        using c cs by (simp add: newline_def)
      moreover have "c # cs = [] @ [newline]"
        using c cs by simp
      ultimately show ?thesis by blast
    next
      case m4: False
      have k: "removeFences ((c # cs) @ ''```'') = c # removeFences (cs @ ''```'')"
        using removeFences_keep [OF m7 m4 m3] by (simp only: append_Cons)
      from IH show ?thesis
      proof
        assume "removeFences (cs @ ''```'') = cs"
        then show ?thesis using k by simp
      next
        assume "\<exists>q'. cs = q' @ [newline] \<and> removeFences (cs @ ''```'') = q'"
        then obtain q' where "cs = q' @ [newline]" "removeFences (cs @ ''```'') = q'"
          by blast
        then have "c # cs = (c # q') @ [newline]"
          "removeFences ((c # cs) @ ''```'') = c # q'"
          using k by simp_all
        then show ?thesis by blast
      qed
    qed
  qed
qed


lemma isWhiteSpace_newline: "isWhiteSpace newline"
  by (simp add: isWhiteSpace_def newline_def)

lemma trim_Cons_newline: "trim (newline # s) = trim s"
  by (simp add: trim_def isWhiteSpace_newline)

lemma trim_snoc_newline: "trim (s @ [newline]) = trim s"
proof (cases "\<forall>x\<in>set s. isWhiteSpace x")
  case True
  then have h: "dropWhile isWhiteSpace (s @ [newline]) = []" "dropWhile isWhiteSpace s = []"
    by (simp_all only: dropWhile_eq_Nil_conv) (simp_all add: isWhiteSpace_newline)
  show ?thesis unfolding trim_def h by simp
next
  case False
  then have "dropWhile isWhiteSpace (s @ [newline]) = dropWhile isWhiteSpace s @ [newline]"
    by (simp add: dropWhile_append)
  then show ?thesis by (simp add: trim_def isWhiteSpace_newline)
qed

lemma trim_skipNewline: "trim (skipNewline p) = trim p"
  by (cases p) (simp_all add: trim_Cons_newline)

lemma no_marker_skipNewline:
  "\<not> includes_str p ''```'' \<Longrightarrow> \<not> includes_str (skipNewline p) ''```''"
proof (cases p)
  case Nil
  then show ?thesis by simp
next
  case (Cons c cs)
  assume "\<not> includes_str p ''```''"
  then have "\<not> includes_str (c # cs) ''```''" "\<not> includes_str cs ''```''"
    unfolding Cons includes_marker_Cons by blast+
  then show ?thesis unfolding Cons by (cases "c = newline") simp_all
qed

lemma endsWith_skipNewline: "endsWith (skipNewline p) t \<Longrightarrow> endsWith p t"
  by (cases p) (auto simp: endsWith_Cons split: if_splits)

lemma removeFences_opening_bare: "removeFences (''```json'' @ t) = removeFences (skipNewline t)"
  by simp

lemma clean_closing:
  assumes "\<not> includes_str q ''```''"
    and "b \<or> (\<not> endsWith q (newline # ''`'') \<and> \<not> endsWith q (newline # ''``''))"
  shows "trim (removeFences (q @ (if b then [newline] else []) @ ''```'')) = trim q"
proof (cases b)
  case True
  then show ?thesis
    using removeFences_closing [of q] removeFences_no_marker [OF assms(1)] by simp
next
  case False
  with assms(2) have "\<not> endsWith q (newline # ''`'')" "\<not> endsWith q (newline # ''``'')"
    by blast+
  from removeFences_closing_bare [OF assms(1) this]
  show ?thesis
  proof
    assume "removeFences (q @ ''```'') = q"
    then show ?thesis using False by simp
  next
    assume "\<exists>q'. q = q' @ [newline] \<and> removeFences (q @ ''```'') = q'"
    then obtain q' where "q = q' @ [newline]" "removeFences (q @ ''```'') = q'"
      by blast
    then show ?thesis using False trim_snoc_newline [of q'] by simp
  qed
qed

lemma cleanText_wrapFenceWith:
  assumes "\<not> includes_str p ''```''"
    and "b \<or> (\<not> endsWith p (newline # ''`'') \<and> \<not> endsWith p (newline # ''``''))"
  shows "cleanText (wrapFenceWith a b p) = trim p"
proof (cases a)
  case True
  then have "removeFences (wrapFenceWith a b p)
      = removeFences (p @ (if b then [newline] else []) @ ''```'')"
    using removeFences_opening [of "p @ (if b then [newline] else []) @ ''```''"]
    by (simp add: wrapFenceWith_def)
  then show ?thesis
    using clean_closing [OF assms] by (simp add: cleanText_def)
next
  case False
  then have w: "removeFences (wrapFenceWith a b p)
      = removeFences (skipNewline (p @ (if b then [newline] else []) @ ''```''))"
    using removeFences_opening_bare [of "p @ (if b then [newline] else []) @ ''```''"]
    by (simp add: wrapFenceWith_def)
  show ?thesis
  proof (cases "p = []")
    case True
    then have "removeFences (wrapFenceWith a b p) = []"
      using w by (simp add: newline_def)
    then show ?thesis using True by (simp add: cleanText_def trim_def)
  next
    case ne: False
    let ?q = "skipNewline p"
    have "skipNewline (p @ (if b then [newline] else []) @ ''```'')
        = ?q @ (if b then [newline] else []) @ ''```''"
      using ne by (rule skipNewline_append)
    moreover have "trim (removeFences (?q @ (if b then [newline] else []) @ ''```'')) = trim ?q"
    proof (rule clean_closing)
      show "\<not> includes_str ?q ''```''"
        using assms(1) by (rule no_marker_skipNewline)
      show "b \<or> (\<not> endsWith ?q (newline # ''`'') \<and> \<not> endsWith ?q (newline # ''``''))"
        using assms(2) endsWith_skipNewline by blast
    qed
    ultimately show ?thesis
      using w by (simp add: cleanText_def trim_skipNewline)
  qed
qed

lemma includes_str_iff: "includes_str s n \<longleftrightarrow> (\<exists>a b. s = a @ n @ b)"
proof (induction s)
  case Nil
  show ?case by simp
next
  case (Cons c cs)
  show ?case
  proof
    assume "includes_str (c # cs) n"
    then consider "take (length n) (c # cs) = n" | "includes_str cs n"
      by auto
    then show "\<exists>a b. c # cs = a @ n @ b"
    proof cases
      case 1
      then have "c # cs = [] @ n @ drop (length n) (c # cs)"
        by (metis append_Nil append_take_drop_id)
      then show ?thesis by blast
    next
      case 2
      then obtain a b where "cs = a @ n @ b" using Cons.IH by blast
      then have "c # cs = (c # a) @ n @ b" by simp
      then show ?thesis by blast
    qed
  next
    assume "\<exists>a b. c # cs = a @ n @ b"
    then obtain a b where e: "c # cs = a @ n @ b" by blast
    show "includes_str (c # cs) n"
    proof (cases a)
      case Nil
      then have "take (length n) (c # cs) = n" using e by simp
      then show ?thesis by simp
    next
      case (Cons x xs)
      then have "cs = xs @ n @ b" using e by simp
      then have "includes_str cs n" using Cons.IH by blast
      then show ?thesis by simp
    qed
  qed
qed

lemma trim_substring: "\<exists>l r. p = l @ trim p @ r"
proof -
  let ?u = "dropWhile isWhiteSpace p"
  have "p = takeWhile isWhiteSpace p @ ?u" by simp
  moreover have "rev ?u = takeWhile isWhiteSpace (rev ?u) @ dropWhile isWhiteSpace (rev ?u)"
    by simp
  then have "?u = trim p @ rev (takeWhile isWhiteSpace (rev ?u))"
    unfolding trim_def by (metis rev_append rev_rev_ident)
  ultimately have "p = takeWhile isWhiteSpace p @ trim p @ rev (takeWhile isWhiteSpace (rev ?u))"
    by simp
  then show ?thesis by blast
qed

lemma no_marker_trim: "\<not> includes_str p n \<Longrightarrow> \<not> includes_str (trim p) n"
proof
  assume no: "\<not> includes_str p n" and "includes_str (trim p) n"
  then obtain a b where "trim p = a @ n @ b" unfolding includes_str_iff by blast
  moreover obtain l r where "p = l @ trim p @ r" using trim_substring by blast
  ultimately have "p = (l @ a) @ n @ (b @ r)" by simp
  then have "includes_str p n" unfolding includes_str_iff by blast
  with no show False by blast
qed

subsection \<open>White space around a JSON text\<close>

text \<open>
  White space appended to a text is left behind by the three readers, which otherwise read
  what they read without it.
\<close>

lemma jsonWs_not_digit: "isJsonWs c \<Longrightarrow> \<not> isDigit c"
  by (auto simp: isJsonWs_def isDigit_def)

lemma jsonWs_whiteSpace: "isJsonWs c \<Longrightarrow> isWhiteSpace c"
  by (auto simp: isJsonWs_def isWhiteSpace_def)

lemma skipWs_Nil_iff: "skipWs s = [] \<longleftrightarrow> (\<forall>c\<in>set s. isJsonWs c)"
  by (simp add: skipWs_def)

lemma skipWs_append_ws:
  assumes "\<forall>c\<in>set w. isJsonWs c"
  shows "skipWs (s @ w) = (if skipWs s = [] then [] else skipWs s @ w)"
proof (cases "\<forall>c\<in>set s. isJsonWs c")
  case True
  then have "skipWs s = []" "skipWs (s @ w) = []"
    using assms by (simp_all only: skipWs_Nil_iff) auto
  then show ?thesis by simp
next
  case False
  then have "skipWs s \<noteq> []" by (simp only: skipWs_Nil_iff) simp
  moreover have "skipWs (s @ w) = skipWs s @ w"
    using False by (auto simp: skipWs_def dropWhile_append)
  ultimately show ?thesis by simp
qed

lemma take_append_ws:
  assumes "\<forall>c\<in>set w. isJsonWs c" and "\<forall>c\<in>set lit. \<not> isJsonWs c" and "n = length lit"
  shows "take n (s @ w) = lit \<longleftrightarrow> take n s = lit"
  using assms(2,3)
proof (induction lit arbitrary: s n)
  case Nil
  then show ?case by simp
next
  case (Cons a lit)
  show ?case
  proof (cases s)
    case Nil
    then show ?thesis using Cons.prems assms(1) by (cases w) auto
  next
    case (Cons x xs)
    then show ?thesis using Cons.IH [of "length lit" xs] Cons.prems by auto
  qed
qed

lemma digitsStage_append_ws:
  assumes "\<forall>c\<in>set w. isJsonWs c"
  shows "digitsStage (s @ w) = (fst (digitsStage s), snd (digitsStage s) @ w)"
proof -
  have w: "takeWhile isDigit w = []" "dropWhile isDigit w = w"
    using assms jsonWs_not_digit by (cases w; simp)+
  show ?thesis
  proof (cases "\<forall>x\<in>set s. isDigit x")
    case True
    then have e: "takeWhile isDigit s = s" "dropWhile isDigit s = []"
      by simp_all
    have "takeWhile isDigit (s @ w) = s" "dropWhile isDigit (s @ w) = w"
      using True by (simp_all add: takeWhile_append dropWhile_append w)
    then show ?thesis
      unfolding digitsStage_def e by simp
  next
    case False
    then show ?thesis
      by (auto simp: digitsStage_def takeWhile_append dropWhile_append)
  qed
qed


lemma take1_append_ws:
  assumes "\<forall>c\<in>set w. isJsonWs c" and "\<not> isJsonWs x"
  shows "take 1 (s @ w) = [x] \<longleftrightarrow> take 1 s = [x]"
  using take_append_ws [OF assms(1), of "[x]" 1 s] assms(2) by simp

lemma signStage_append_ws:
  assumes "\<forall>c\<in>set w. isJsonWs c"
  shows "signStage (s @ w) = (fst (signStage s), snd (signStage s) @ w)"
proof -
  have "take 1 (s @ w) = ''-'' \<longleftrightarrow> take 1 s = ''-''"
    by (rule take1_append_ws [OF assms]) (simp add: isJsonWs_def)
  then show ?thesis
    by (cases s) (auto simp: signStage_def)
qed

lemma fracStage_append_ws:
  assumes "\<forall>c\<in>set w. isJsonWs c"
  shows "fracStage (s @ w) =
    (fst (fracStage s), fst (snd (fracStage s)), snd (snd (fracStage s)) @ w)"
proof -
  have "take 1 (s @ w) = ''.'' \<longleftrightarrow> take 1 s = ''.''"
    by (rule take1_append_ws [OF assms]) (simp add: isJsonWs_def)
  then show ?thesis
    using digitsStage_append_ws [OF assms, of "drop 1 s"]
    by (cases s) (auto simp: fracStage_def)
qed


lemma expStage_append_ws:
  assumes "\<forall>c\<in>set w. isJsonWs c"
  shows "expStage (s @ w) = (case expStage s of (b, n, d, r) \<Rightarrow> (b, n, d, r @ w))"
proof (cases "take 1 s = ''e'' \<or> take 1 s = ''E''")
  case False
  moreover have "take 1 (s @ w) = ''e'' \<longleftrightarrow> take 1 s = ''e''"
    "take 1 (s @ w) = ''E'' \<longleftrightarrow> take 1 s = ''E''"
    by (rule take1_append_ws [OF assms], simp add: isJsonWs_def)+
  ultimately show ?thesis
    by (simp add: expStage_def)
next
  case True
  then obtain x s' where s: "s = x # s'" and x: "x = CHR ''e'' \<or> x = CHR ''E''"
    by (cases s) auto
  have m: "take 1 (s' @ w) = ''-'' \<longleftrightarrow> take 1 s' = ''-''"
    and p: "take 1 (s' @ w) = ''+'' \<longleftrightarrow> take 1 s' = ''+''"
    by (rule take1_append_ws [OF assms], simp add: isJsonWs_def)+
  have d1: "digitsStage (s' @ w) = (fst (digitsStage s'), snd (digitsStage s') @ w)"
    by (rule digitsStage_append_ws [OF assms])
  have d2: "digitsStage (drop 1 s' @ w)
      = (fst (digitsStage (drop 1 s')), snd (digitsStage (drop 1 s')) @ w)"
    by (rule digitsStage_append_ws [OF assms])
  have dr: "take 1 s' = [y] \<Longrightarrow> drop 1 (s' @ w) = drop 1 s' @ w" for y
    by (cases s') simp_all
  show ?thesis
  proof (cases "take 1 s' = ''-''")
    case True
    then show ?thesis
      using x s m d2 dr [OF True] by (auto simp: expStage_def split: prod.splits)
  next
    case nm: False
    show ?thesis
    proof (cases "take 1 s' = ''+''")
      case True
      then show ?thesis
        using x s m p nm d2 dr [OF True] by (auto simp: expStage_def split: prod.splits)
    next
      case False
      then show ?thesis
        using x s m p nm d1 by (auto simp: expStage_def split: prod.splits)
    qed
  qed
qed

lemma parseNumber_append_ws:
  assumes "\<forall>c\<in>set w. isJsonWs c"
  shows "parseNumber (s @ w) = map_option (apsnd (\<lambda>r. r @ w)) (parseNumber s)"
proof -
  obtain neg s1 where a1: "signStage s = (neg, s1)" by (cases "signStage s")
  obtain ip s2 where a2: "digitsStage s1 = (ip, s2)" by (cases "digitsStage s1")
  obtain hasFrac fp s3 where a3: "fracStage s2 = (hasFrac, fp, s3)"
    by (cases "fracStage s2")
  obtain hasExp eneg ep s4 where a4: "expStage s3 = (hasExp, eneg, ep, s4)"
    by (cases "expStage s3")
  have b1: "signStage (s @ w) = (neg, s1 @ w)"
    using signStage_append_ws [OF assms, of s] a1 by simp
  have b2: "digitsStage (s1 @ w) = (ip, s2 @ w)"
    using digitsStage_append_ws [OF assms, of s1] a2 by simp
  have b3: "fracStage (s2 @ w) = (hasFrac, fp, s3 @ w)"
    using fracStage_append_ws [OF assms, of s2] a3 by simp
  have b4: "expStage (s3 @ w) = (hasExp, eneg, ep, s4 @ w)"
    using expStage_append_ws [OF assms, of s3] a4 by simp
  show ?thesis
    by (simp add: parseNumber_def a1 a2 a3 a4 b1 b2 b3 b4)
qed


lemma parseChars_Cons:
  "parseChars (c # t) =
     (if c = CHR 0x22 then Some ([], t)
      else if c = CHR 0x5C then
        (case t of
           [] \<Rightarrow> None
         | e # cs \<Rightarrow>
             if e = CHR ''u'' then
               (case unicodeEscape (take 4 cs) of
                  None \<Rightarrow> None
                | Some u \<Rightarrow> map_option (apfst ((#) u)) (parseChars (drop 4 cs)))
             else
               (case simpleEscape e of
                  None \<Rightarrow> None
                | Some u \<Rightarrow> map_option (apfst ((#) u)) (parseChars cs)))
      else if (of_char c :: nat) < 32 then None
      else map_option (apfst ((#) c)) (parseChars t))"
  by (cases t) auto

lemma map_apfst_apsnd:
  "map_option (apfst f) (map_option (apsnd g) x) = map_option (apsnd g) (map_option (apfst f) x)"
  by (cases x) auto

lemma jsonWs_plain:
  assumes "isJsonWs c"
  shows "c \<noteq> CHR 0x22" "c \<noteq> CHR 0x5C" "c \<noteq> CHR ''u''" "simpleEscape c = None"
    "hexValue c = None"
  using assms by (auto simp: isJsonWs_def simpleEscape_def hexValue_def)

lemma parseChars_ws: "\<forall>c\<in>set w. isJsonWs c \<Longrightarrow> parseChars w = None"
proof (induction w)
  case Nil
  show ?case by simp
next
  case (Cons c w)
  then have "isJsonWs c" and "parseChars w = None" by simp_all
  then show ?case
    using jsonWs_plain [of c] by (simp add: parseChars_Cons)
qed

lemma unicodeEscape_Some:
  assumes "unicodeEscape h = Some u"
  shows "length h = 4" and "\<forall>c\<in>set h. hexValue c \<noteq> None"
proof -
  from assms obtain a b c d where "map hexValue h = [Some a, Some b, Some c, Some d]"
    by (auto simp: unicodeEscape_def split: list.splits option.splits if_splits)
  then have "length (map hexValue h) = 4" and "\<forall>x\<in>set (map hexValue h). x \<noteq> None"
    by simp_all
  then show "length h = 4" and "\<forall>c\<in>set h. hexValue c \<noteq> None"
    by auto
qed

lemma unicodeEscape_append_ws:
  assumes "\<forall>c\<in>set w. isJsonWs c"
  shows "unicodeEscape (take 4 (cs @ w)) = unicodeEscape (take 4 cs)"
proof (cases "4 \<le> length cs")
  case True
  then show ?thesis by simp
next
  case False
  have "unicodeEscape (take 4 cs) = None"
  proof (rule ccontr)
    assume "unicodeEscape (take 4 cs) \<noteq> None"
    then obtain u where "unicodeEscape (take 4 cs) = Some u" by blast
    then have "length (take 4 cs) = 4" by (rule unicodeEscape_Some)
    then show False using False by simp
  qed
  moreover have "unicodeEscape (take 4 (cs @ w)) = None"
  proof (rule ccontr)
    assume "unicodeEscape (take 4 (cs @ w)) \<noteq> None"
    then obtain u where u: "unicodeEscape (take 4 (cs @ w)) = Some u" by blast
    have len: "length (take 4 (cs @ w)) = 4" and hex: "\<forall>c\<in>set (take 4 (cs @ w)). hexValue c \<noteq> None"
      using unicodeEscape_Some [OF u] by blast+
    from len False have "take (4 - length cs) w \<noteq> []" by auto
    then obtain x where "x \<in> set (take (4 - length cs) w)"
      by (cases "take (4 - length cs) w") auto
    then have "x \<in> set w" "x \<in> set (take 4 (cs @ w))"
      using set_take_subset [of "4 - length cs" w] by auto
    then show False using hex assms jsonWs_plain(5) by blast
  qed
  ultimately show ?thesis by simp
qed

lemma parseChars_append_ws:
  assumes "\<forall>c\<in>set w. isJsonWs c"
  shows "parseChars (s @ w) = map_option (apsnd (\<lambda>r. r @ w)) (parseChars s)"
proof (induction s rule: length_induct)
  case (1 s)
  show ?case
  proof (cases s)
    case Nil
    then show ?thesis using parseChars_ws [OF assms] by simp
  next
    case (Cons c s')
    have IH: "parseChars (t @ w) = map_option (apsnd (\<lambda>r. r @ w)) (parseChars t)"
      if "length t < length s" for t
      using 1 that by blast
    have i1: "parseChars (s' @ w) = map_option (apsnd (\<lambda>r. r @ w)) (parseChars s')"
      by (rule IH) (simp add: Cons)
    show ?thesis
    proof (cases "c = CHR 0x5C")
      case False
      then show ?thesis
        unfolding Cons append_Cons parseChars_Cons [of c] i1
        by (simp add: map_apfst_apsnd)
    next
      case bs: True
      show ?thesis
      proof (cases s')
        case Nil
        have "parseChars (c # w) = None"
        proof (cases w)
          case Nil
          then show ?thesis using bs by simp
        next
          case (Cons e w')
          then have "isJsonWs e" using assms by simp
          then show ?thesis
            using bs Cons jsonWs_plain [of e] by (simp add: parseChars_Cons)
        qed
        then show ?thesis using Nil Cons bs by simp
      next
        case c2: (Cons e cs)
        have i2: "parseChars (cs @ w) = map_option (apsnd (\<lambda>r. r @ w)) (parseChars cs)"
          by (rule IH) (simp add: Cons c2)
        have i3: "parseChars (drop 4 cs @ w)
            = map_option (apsnd (\<lambda>r. r @ w)) (parseChars (drop 4 cs))"
          by (rule IH) (simp add: Cons c2)
        have u: "unicodeEscape (take 4 (cs @ w)) = unicodeEscape (take 4 cs)"
          by (rule unicodeEscape_append_ws [OF assms])
        have d: "drop 4 (cs @ w) = drop 4 cs @ w" if "unicodeEscape (take 4 cs) = Some x" for x
        proof -
          have "length (take 4 cs) = 4" using that by (rule unicodeEscape_Some)
          then show ?thesis by simp
        qed
        show ?thesis
          unfolding Cons c2 append_Cons parseChars_Cons [of c]
          using bs u d i2 i3
          by (auto simp: map_apfst_apsnd split: option.splits)
      qed
    qed
  qed
qed


lemma drop_append_take:
  assumes "take n s = lit" and "length lit = n"
  shows "drop n (s @ w) = drop n s @ w"
proof -
  have "n \<le> length s" using assms by (rule take_eq_length)
  then show ?thesis by simp
qed

lemma parseScalar_append_ws:
  assumes "\<forall>c\<in>set w. isJsonWs c"
  shows "parseScalar (s @ w) = map_option (apsnd (\<lambda>r. r @ w)) (parseScalar s)"
proof -
  have q: "take 1 (s @ w) = [CHR 0x22] \<longleftrightarrow> take 1 s = [CHR 0x22]"
    by (rule take1_append_ws [OF assms]) (simp add: isJsonWs_def)
  have t: "take 4 (s @ w) = ''true'' \<longleftrightarrow> take 4 s = ''true''"
    by (rule take_append_ws [OF assms]) (simp_all add: isJsonWs_def)
  have f: "take 5 (s @ w) = ''false'' \<longleftrightarrow> take 5 s = ''false''"
    by (rule take_append_ws [OF assms]) (simp_all add: isJsonWs_def)
  have n: "take 4 (s @ w) = ''null'' \<longleftrightarrow> take 4 s = ''null''"
    by (rule take_append_ws [OF assms]) (simp_all add: isJsonWs_def)
  show ?thesis
  proof (cases "take 1 s = [CHR 0x22]")
    case True
    then have "drop 1 (s @ w) = drop 1 s @ w"
      by (rule drop_append_take) simp
    then show ?thesis
      unfolding parseScalar_def [of "s @ w"] parseScalar_def [of s]
      using True q parseChars_append_ws [OF assms, of "drop 1 s"]
      by (simp add: map_apfst_apsnd)
  next
    case nq: False
    show ?thesis
    proof (cases "take 4 s = ''true''")
      case True
      then have "drop 4 (s @ w) = drop 4 s @ w"
        by (rule drop_append_take) simp
      then show ?thesis
        unfolding parseScalar_def [of "s @ w"] parseScalar_def [of s]
        using True nq q t by simp
    next
      case nt: False
      show ?thesis
      proof (cases "take 5 s = ''false''")
        case True
        then have "drop 5 (s @ w) = drop 5 s @ w"
          by (rule drop_append_take) simp
        then show ?thesis
          unfolding parseScalar_def [of "s @ w"] parseScalar_def [of s]
          using True nq nt q t f by simp
      next
        case nf: False
        show ?thesis
        proof (cases "take 4 s = ''null''")
          case True
          then have "drop 4 (s @ w) = drop 4 s @ w"
            by (rule drop_append_take) simp
          then show ?thesis
            unfolding parseScalar_def [of "s @ w"] parseScalar_def [of s]
            using True nq nt nf q t f n by simp
        next
          case False
          then show ?thesis
            unfolding parseScalar_def [of "s @ w"] parseScalar_def [of s]
            using nq nt nf q t f n parseNumber_append_ws [OF assms, of s] by simp
        qed
      qed
    qed
  qed
qed


lemma take1_skipWs_append:
  assumes "\<forall>c\<in>set w. isJsonWs c"
  shows "take 1 (skipWs (cs @ w)) = [x] \<longleftrightarrow> take 1 (skipWs cs) = [x]"
  using skipWs_append_ws [OF assms, of cs] by (cases "skipWs cs") simp_all

lemma drop1_skipWs_append:
  assumes "\<forall>c\<in>set w. isJsonWs c" and "take 1 (skipWs cs) = [x]"
  shows "drop 1 (skipWs (cs @ w)) = drop 1 (skipWs cs) @ w"
  using skipWs_append_ws [OF assms(1), of cs] assms(2) by (cases "skipWs cs") simp_all

lemma parseValue_Suc_append_ws:
  assumes ws: "\<forall>c\<in>set w. isJsonWs c"
    and E: "\<And>s. parseElements n (s @ w) = map_option (apsnd (\<lambda>r. r @ w)) (parseElements n s)"
    and M: "\<And>s. parseMembers n (s @ w) = map_option (apsnd (\<lambda>r. r @ w)) (parseMembers n s)"
  shows "parseValue (Suc n) (s @ w) = map_option (apsnd (\<lambda>r. r @ w)) (parseValue (Suc n) s)"
proof (cases "skipWs s")
  case Nil
  then have "skipWs (s @ w) = []"
    using skipWs_append_ws [OF ws, of s] by simp
  then show ?thesis using Nil by simp
next
  case (Cons c cs)
  then have a: "skipWs (s @ w) = c # (cs @ w)"
    using skipWs_append_ws [OF ws, of s] by simp
  have sc: "parseScalar (c # cs @ w) = map_option (apsnd (\<lambda>r. r @ w)) (parseScalar (c # cs))"
    using parseScalar_append_ws [OF ws, of "c # cs"] by simp
  have b1: "take 1 (skipWs (cs @ w)) = ''}'' \<longleftrightarrow> take 1 (skipWs cs) = ''}''"
    and b2: "take 1 (skipWs (cs @ w)) = '']'' \<longleftrightarrow> take 1 (skipWs cs) = '']''"
    by (rule take1_skipWs_append [OF ws])+
  have d1: "take 1 (skipWs cs) = ''}'' \<Longrightarrow> drop 1 (skipWs (cs @ w)) = drop 1 (skipWs cs) @ w"
    and d2: "take 1 (skipWs cs) = '']'' \<Longrightarrow> drop 1 (skipWs (cs @ w)) = drop 1 (skipWs cs) @ w"
    by (rule drop1_skipWs_append [OF ws], assumption)+
  show ?thesis
    using Cons a sc b1 b2 d1 d2 E [of cs] M [of cs]
    by (simp add: map_apfst_apsnd)
qed


lemma tail_append_ws:
  assumes ws: "\<forall>c\<in>set w. isJsonWs c"
    and R: "\<And>t. f (t @ w) = map_option (apsnd (\<lambda>r. r @ w)) (f t)"
  shows "(case skipWs (r @ w) of
            [] \<Rightarrow> None
          | c # cs \<Rightarrow>
              if c = CHR '','' then map_option (apfst ((#) x)) (f cs)
              else if c = close then Some ([x], cs)
              else None)
       = map_option (apsnd (\<lambda>r. r @ w))
          (case skipWs r of
             [] \<Rightarrow> None
           | c # cs \<Rightarrow>
               if c = CHR '','' then map_option (apfst ((#) x)) (f cs)
               else if c = close then Some ([x], cs)
               else None)"
proof (cases "skipWs r")
  case Nil
  then have "skipWs (r @ w) = []"
    using skipWs_append_ws [OF ws, of r] by simp
  then show ?thesis using Nil by simp
next
  case (Cons c cs)
  then have "skipWs (r @ w) = c # (cs @ w)"
    using skipWs_append_ws [OF ws, of r] by simp
  then show ?thesis
    using Cons R [of cs] by (simp add: map_apfst_apsnd)
qed

lemma parseElements_Suc_append_ws:
  assumes ws: "\<forall>c\<in>set w. isJsonWs c"
    and V: "\<And>s. parseValue n (s @ w) = map_option (apsnd (\<lambda>r. r @ w)) (parseValue n s)"
    and E: "\<And>s. parseElements n (s @ w) = map_option (apsnd (\<lambda>r. r @ w)) (parseElements n s)"
  shows "parseElements (Suc n) (s @ w)
      = map_option (apsnd (\<lambda>r. r @ w)) (parseElements (Suc n) s)"
proof (cases "parseValue n s")
  case None
  then show ?thesis using V [of s] by simp
next
  case (Some p)
  obtain v r where p: "p = (v, r)" by (cases p)
  have "parseValue n (s @ w) = Some (v, r @ w)"
    using V [of s] Some p by simp
  then show ?thesis
    using Some p tail_append_ws [where f = "parseElements n" and r = r and x = v
        and close = "CHR '']''", OF ws E]
    by simp
qed

lemma parseMembers_Suc_append_ws:
  assumes ws: "\<forall>c\<in>set w. isJsonWs c"
    and V: "\<And>s. parseValue n (s @ w) = map_option (apsnd (\<lambda>r. r @ w)) (parseValue n s)"
    and M: "\<And>s. parseMembers n (s @ w) = map_option (apsnd (\<lambda>r. r @ w)) (parseMembers n s)"
  shows "parseMembers (Suc n) (s @ w)
      = map_option (apsnd (\<lambda>r. r @ w)) (parseMembers (Suc n) s)"
proof (cases "skipWs s")
  case Nil
  then have "skipWs (s @ w) = []"
    using skipWs_append_ws [OF ws, of s] by simp
  then show ?thesis using Nil by simp
next
  case (Cons q s1)
  then have a: "skipWs (s @ w) = q # (s1 @ w)"
    using skipWs_append_ws [OF ws, of s] by simp
  show ?thesis
  proof (cases "parseChars s1")
    case None
    then have "parseChars (s1 @ w) = None"
      using parseChars_append_ws [OF ws, of s1] by simp
    then show ?thesis using Cons a None by simp
  next
    case (Some p)
    obtain k s2 where p: "p = (k, s2)" by (cases p)
    have pc: "parseChars (s1 @ w) = Some (k, s2 @ w)"
      using parseChars_append_ws [OF ws, of s1] Some p by simp
    have col: "take 1 (skipWs (s2 @ w)) = '':'' \<longleftrightarrow> take 1 (skipWs s2) = '':''"
      by (rule take1_skipWs_append [OF ws])
    show ?thesis
    proof (cases "q = CHR 0x22 \<and> take 1 (skipWs s2) = '':''")
      case False
      then show ?thesis using Cons a Some p pc col by auto
    next
      case True
      then have d: "drop 1 (skipWs (s2 @ w)) = drop 1 (skipWs s2) @ w"
        using drop1_skipWs_append [OF ws] by blast
      show ?thesis
      proof (cases "parseValue n (drop 1 (skipWs s2))")
        case None
        then have "parseValue n (drop 1 (skipWs s2) @ w) = None"
          using V [of "drop 1 (skipWs s2)"] by simp
        then show ?thesis using Cons a Some p pc col True d None by simp
      next
        case sv: (Some pv)
        obtain v r where pv: "pv = (v, r)" by (cases pv)
        have "parseValue n (drop 1 (skipWs s2) @ w) = Some (v, r @ w)"
          using V [of "drop 1 (skipWs s2)"] sv pv by simp
        then show ?thesis
          using Cons a Some p pc col True d sv pv
            tail_append_ws [where f = "parseMembers n" and r = r and x = "(k, v)"
              and close = "CHR ''}''", OF ws M]
          by simp
      qed
    qed
  qed
qed

lemma parse_append_ws:
  assumes ws: "\<forall>c\<in>set w. isJsonWs c"
  shows "(\<forall>s. parseValue n (s @ w) = map_option (apsnd (\<lambda>r. r @ w)) (parseValue n s))
       \<and> (\<forall>s. parseElements n (s @ w) = map_option (apsnd (\<lambda>r. r @ w)) (parseElements n s))
       \<and> (\<forall>s. parseMembers n (s @ w) = map_option (apsnd (\<lambda>r. r @ w)) (parseMembers n s))"
proof (induction n)
  case 0
  show ?case by simp
next
  case (Suc n)
  then have V: "\<And>s. parseValue n (s @ w) = map_option (apsnd (\<lambda>r. r @ w)) (parseValue n s)"
    and E: "\<And>s. parseElements n (s @ w) = map_option (apsnd (\<lambda>r. r @ w)) (parseElements n s)"
    and M: "\<And>s. parseMembers n (s @ w) = map_option (apsnd (\<lambda>r. r @ w)) (parseMembers n s)"
    by blast+
  show ?case
    using parseValue_Suc_append_ws [OF ws E M] parseElements_Suc_append_ws [OF ws V E]
      parseMembers_Suc_append_ws [OF ws V M]
    by blast
qed

text \<open>
  What a reader has read ends with a character that is not white space, and a value starts,
  after the white space of JSON, with one that is not white space either. So a text that
  parses still parses, to the same value, without its leading and trailing white space.
\<close>

lemma consumed_prepend: "consumed t r P \<Longrightarrow> consumed (p @ t) r P"
proof -
  assume "consumed t r P"
  then obtain a where "t = a @ r" "a \<noteq> []" "P (last a)"
    unfolding consumed_def by blast
  then have "p @ t = (p @ a) @ r" "p @ a \<noteq> []" "P (last (p @ a))"
    by simp_all
  then show ?thesis unfolding consumed_def by blast
qed

lemma consumed_Cons: "consumed t r P \<Longrightarrow> consumed (c # t) r P"
  using consumed_prepend [of t r P "[c]"] by simp

lemma consumed_drop: "consumed (drop n s) r P \<Longrightarrow> consumed s r P"
  using consumed_prepend [of "drop n s" r P "take n s"] by simp

lemma consumed_trans: "consumed s t P \<Longrightarrow> consumed t r P \<Longrightarrow> consumed s r P"
proof -
  assume "consumed s t P" and "consumed t r P"
  then obtain a where "s = a @ t" unfolding consumed_def by blast
  then show ?thesis using \<open>consumed t r P\<close> consumed_prepend by blast
qed

lemma consumed_literal:
  assumes "take n s = lit" and "lit \<noteq> []" and "P (last lit)"
  shows "consumed s (drop n s) P"
proof -
  have "s = lit @ drop n s" using assms(1) by (metis append_take_drop_id)
  then show ?thesis unfolding consumed_def using assms(2,3) by blast
qed

lemma skipWs_decomp: "\<exists>l. s = l @ skipWs s \<and> (\<forall>c\<in>set l. isJsonWs c)"
proof -
  have "s = takeWhile isJsonWs s @ skipWs s" by (simp add: skipWs_def)
  moreover have "\<forall>c\<in>set (takeWhile isJsonWs s). isJsonWs c"
    by (meson set_takeWhileD)
  ultimately show ?thesis by blast
qed

lemma consumed_skipWs: "consumed (skipWs s) r P \<Longrightarrow> consumed s r P"
  using skipWs_decomp [of s] consumed_prepend by metis

lemma parseChars_consumed:
  "parseChars s = Some (k, r) \<Longrightarrow> consumed s r (\<lambda>c. c = CHR 0x22)"
proof (induction s arbitrary: k r rule: length_induct)
  case (1 s)
  then obtain c t where s: "s = c # t" by (cases s) auto
  have IH: "consumed u r' (\<lambda>c. c = CHR 0x22)"
    if "length u < length s" "parseChars u = Some (k', r')" for u k' r'
    using 1 that by blast
  note p = "1.prems" [unfolded s parseChars_Cons]
  show ?case
  proof (cases "c = CHR 0x22")
    case True
    then have "r = t" using p by simp
    then have "s = [c] @ r" using s by simp
    then show ?thesis unfolding consumed_def using True by force
  next
    case nq: False
    show ?thesis
    proof (cases "c = CHR 0x5C")
      case False
      then obtain k' where "parseChars t = Some (k', r)"
        using p nq by (auto split: if_splits)
      then have "consumed t r (\<lambda>c. c = CHR 0x22)"
        by (rule IH [rotated]) (simp add: s)
      then show ?thesis unfolding s by (rule consumed_Cons)
    next
      case True
      then obtain e cs where t: "t = e # cs"
        using p nq by (cases t) auto
      consider k' where "parseChars (drop 4 cs) = Some (k', r)"
        | k' where "parseChars cs = Some (k', r)"
        using p nq True t by (auto split: if_splits option.splits)
      then show ?thesis
      proof cases
        case 1
        then have "consumed (drop 4 cs) r (\<lambda>c. c = CHR 0x22)"
          by (rule IH [rotated]) (simp add: s t)
        then have "consumed cs r (\<lambda>c. c = CHR 0x22)" by (rule consumed_drop)
        then show ?thesis unfolding s t by (intro consumed_Cons)
      next
        case 2
        then have "consumed cs r (\<lambda>c. c = CHR 0x22)"
          by (rule IH [rotated]) (simp add: s t)
        then show ?thesis unfolding s t by (intro consumed_Cons)
      qed
    qed
  qed
qed


lemma digit_not_whiteSpace: "isDigit c \<Longrightarrow> \<not> isWhiteSpace c"
  by (auto simp: isDigit_def isWhiteSpace_def)

lemma digitsStage_consumed:
  assumes "digitsStage s = (d, r)" and "d \<noteq> []"
  shows "consumed s r isDigit"
proof -
  have "s = d @ r" using assms(1) by (auto simp: digitsStage_def)
  moreover have "last d \<in> set (takeWhile isDigit s)"
    using assms by (auto simp: digitsStage_def)
  then have "isDigit (last d)" by (meson set_takeWhileD)
  ultimately show ?thesis unfolding consumed_def using assms(2) by blast
qed

lemma signStage_prefix: "signStage s = (b, r) \<Longrightarrow> \<exists>p. s = p @ r"
  by (auto simp: signStage_def split: if_splits) (metis append_take_drop_id)

lemma fracStage_consumed:
  assumes "fracStage s = (b, d, r)" and "b \<longrightarrow> d \<noteq> []"
  shows "r = s \<or> consumed s r isDigit"
proof (cases b)
  case False
  then show ?thesis using assms(1) by (auto simp: fracStage_def split: if_splits)
next
  case True
  then have "digitsStage (drop 1 s) = (d, r)" and "d \<noteq> []"
    using assms by (auto simp: fracStage_def split: if_splits)
  then have "consumed (drop 1 s) r isDigit" by (rule digitsStage_consumed)
  then show ?thesis using consumed_drop by blast
qed

lemma expStage_consumed:
  assumes "expStage s = (b, n, d, r)" and "b \<longrightarrow> d \<noteq> []"
  shows "r = s \<or> consumed s r isDigit"
proof (cases b)
  case False
  then show ?thesis using assms(1) by (auto simp: expStage_def split: if_splits)
next
  case True
  then have "d \<noteq> []" using assms(2) by simp
  moreover have "digitsStage (drop 1 s) = (d, r) \<or> digitsStage (drop 2 s) = (d, r)"
    using assms(1) True by (auto simp: expStage_def split: if_splits)
  ultimately have "consumed (drop 1 s) r isDigit \<or> consumed (drop 2 s) r isDigit"
    using digitsStage_consumed by blast
  then show ?thesis using consumed_drop by blast
qed

lemma parseNumber_consumed:
  assumes "parseNumber s = Some (v, r)"
  shows "consumed s r isDigit"
proof -
  obtain neg s1 where a1: "signStage s = (neg, s1)" by (cases "signStage s")
  obtain ip s2 where a2: "digitsStage s1 = (ip, s2)" by (cases "digitsStage s1")
  obtain hasFrac fp s3 where a3: "fracStage s2 = (hasFrac, fp, s3)"
    by (cases "fracStage s2")
  obtain hasExp eneg ep s4 where a4: "expStage s3 = (hasExp, eneg, ep, s4)"
    by (cases "expStage s3")
  have v: "ip \<noteq> []" "hasFrac \<longrightarrow> fp \<noteq> []" "hasExp \<longrightarrow> ep \<noteq> []" "r = s4"
    using assms a1 a2 a3 a4 by (simp_all add: parseNumber_def split: if_splits)
  have c2: "consumed s1 s2 isDigit"
    using a2 v(1) by (rule digitsStage_consumed)
  have "s3 = s2 \<or> consumed s2 s3 isDigit"
    using a3 v(2) by (rule fracStage_consumed)
  then have c3: "consumed s1 s3 isDigit"
    using c2 consumed_trans by blast
  have "s4 = s3 \<or> consumed s3 s4 isDigit"
    using a4 v(3) by (rule expStage_consumed)
  then have "consumed s1 s4 isDigit"
    using c3 consumed_trans by blast
  moreover obtain p where "s = p @ s1" using signStage_prefix [OF a1] by blast
  ultimately show ?thesis using v(4) consumed_prepend by blast
qed

lemma consumed_weaken: "consumed s r P \<Longrightarrow> (\<And>c. P c \<Longrightarrow> Q c) \<Longrightarrow> consumed s r Q"
  unfolding consumed_def by blast

lemma parseScalar_consumed:
  assumes "parseScalar s = Some (v, r)"
  shows "consumed s r (\<lambda>c. \<not> isWhiteSpace c)"
proof (cases "take 1 s = [CHR 0x22]")
  case True
  then obtain k where "parseChars (drop 1 s) = Some (k, r)"
    using assms by (auto simp: parseScalar_def)
  then have "consumed (drop 1 s) r (\<lambda>c. c = CHR 0x22)"
    by (rule parseChars_consumed)
  then have "consumed s r (\<lambda>c. c = CHR 0x22)" by (rule consumed_drop)
  then show ?thesis
    by (rule consumed_weaken) (simp add: isWhiteSpace_def)
next
  case q: False
  show ?thesis
  proof (cases "take 4 s = ''true''")
    case True
    then have "r = drop 4 s" using assms q by (simp add: parseScalar_def)
    then show ?thesis
      using consumed_literal [OF True, of "\<lambda>c. \<not> isWhiteSpace c"]
      by (simp add: isWhiteSpace_def)
  next
    case t: False
    show ?thesis
    proof (cases "take 5 s = ''false''")
      case True
      then have "r = drop 5 s" using assms q t by (simp add: parseScalar_def)
      then show ?thesis
        using consumed_literal [OF True, of "\<lambda>c. \<not> isWhiteSpace c"]
        by (simp add: isWhiteSpace_def)
    next
      case f: False
      show ?thesis
      proof (cases "take 4 s = ''null''")
        case True
        then have "r = drop 4 s" using assms q t f by (simp add: parseScalar_def)
        then show ?thesis
          using consumed_literal [OF True, of "\<lambda>c. \<not> isWhiteSpace c"]
          by (simp add: isWhiteSpace_def)
      next
        case False
        then have "parseNumber s = Some (v, r)"
          using assms q t f by (simp add: parseScalar_def)
        then have "consumed s r isDigit" by (rule parseNumber_consumed)
        then show ?thesis
          by (rule consumed_weaken) (rule digit_not_whiteSpace)
      qed
    qed
  qed
qed


lemma tail_consumed:
  assumes t: "(case skipWs r1 of
            [] \<Rightarrow> None
          | c # cs \<Rightarrow>
              if c = CHR '','' then map_option (apfst ((#) x)) (f cs)
              else if c = close then Some ([x], cs)
              else None) = Some (vs, r)"
    and R: "\<And>cs y. f cs = Some (y, r) \<Longrightarrow> consumed cs r (\<lambda>c. \<not> isWhiteSpace c)"
    and cl: "\<not> isWhiteSpace close"
  shows "consumed r1 r (\<lambda>c. \<not> isWhiteSpace c)"
proof -
  obtain c cs where sk: "skipWs r1 = c # cs"
    using t by (cases "skipWs r1") auto
  have "consumed (c # cs) r (\<lambda>c. \<not> isWhiteSpace c)"
  proof (cases "c = CHR '',''")
    case True
    then have "map_option (apfst ((#) x)) (f cs) = Some (vs, r)"
      using t sk by simp
    from map_apfst_Some [OF this] obtain y where "f cs = Some (y, r)" by blast
    then have "consumed cs r (\<lambda>c. \<not> isWhiteSpace c)" by (rule R)
    then show ?thesis by (rule consumed_Cons)
  next
    case False
    then have "c = close" "r = cs"
      using t sk by (auto split: if_splits)
    then have "c # cs = [c] @ r" "\<not> isWhiteSpace (last [c])"
      using cl by simp_all
    then show ?thesis unfolding consumed_def by blast
  qed
  then show ?thesis using sk consumed_skipWs by metis
qed

lemma parseValue_Suc_consumed:
  assumes E: "\<And>s v r. parseElements n s = Some (v, r) \<Longrightarrow> consumed s r (\<lambda>c. \<not> isWhiteSpace c)"
    and M: "\<And>s v r. parseMembers n s = Some (v, r) \<Longrightarrow> consumed s r (\<lambda>c. \<not> isWhiteSpace c)"
    and p: "parseValue (Suc n) s = Some (v, r)"
  shows "consumed s r (\<lambda>c. \<not> isWhiteSpace c)"
proof -
  let ?N = "\<lambda>c. \<not> isWhiteSpace c"
  obtain c cs where sk: "skipWs s = c # cs"
    using p by (cases "skipWs s") auto
  have closing: "consumed (c # cs) (drop 1 (skipWs cs)) ?N"
    if "take 1 (skipWs cs) = [d]" "\<not> isWhiteSpace d" for d
  proof -
    have "consumed (skipWs cs) (drop 1 (skipWs cs)) ?N"
      using that by (intro consumed_literal [where lit = "[d]"]) simp_all
    then have "consumed cs (drop 1 (skipWs cs)) ?N" by (rule consumed_skipWs)
    then show ?thesis by (rule consumed_Cons)
  qed
  have "consumed (c # cs) r ?N"
  proof (cases "c = CHR ''{''")
    case True
    show ?thesis
    proof (cases "take 1 (skipWs cs) = ''}''")
      case t: True
      then have "r = drop 1 (skipWs cs)" using p sk True by simp
      then show ?thesis using closing [OF t] by (simp add: isWhiteSpace_def)
    next
      case False
      then have "map_option (apfst JObject) (parseMembers n cs) = Some (v, r)"
        using p sk True by simp
      from map_apfst_Some [OF this] obtain y where "parseMembers n cs = Some (y, r)"
        by blast
      then have "consumed cs r ?N" by (rule M)
      then show ?thesis by (rule consumed_Cons)
    qed
  next
    case nb: False
    show ?thesis
    proof (cases "c = CHR ''[''")
      case True
      show ?thesis
      proof (cases "take 1 (skipWs cs) = '']''")
        case t: True
        then have "r = drop 1 (skipWs cs)" using p sk True nb by simp
        then show ?thesis using closing [OF t] by (simp add: isWhiteSpace_def)
      next
        case False
        then have "map_option (apfst JArray) (parseElements n cs) = Some (v, r)"
          using p sk True nb by simp
        from map_apfst_Some [OF this] obtain y where "parseElements n cs = Some (y, r)"
          by blast
        then have "consumed cs r ?N" by (rule E)
        then show ?thesis by (rule consumed_Cons)
      qed
    next
      case False
      then have "parseScalar (c # cs) = Some (v, r)"
        using p sk nb by simp
      then show ?thesis by (rule parseScalar_consumed)
    qed
  qed
  then show ?thesis using sk consumed_skipWs by metis
qed

lemma parseElements_Suc_consumed:
  assumes V: "\<And>s v r. parseValue n s = Some (v, r) \<Longrightarrow> consumed s r (\<lambda>c. \<not> isWhiteSpace c)"
    and E: "\<And>s v r. parseElements n s = Some (v, r) \<Longrightarrow> consumed s r (\<lambda>c. \<not> isWhiteSpace c)"
    and p: "parseElements (Suc n) s = Some (vs, r)"
  shows "consumed s r (\<lambda>c. \<not> isWhiteSpace c)"
proof -
  obtain v r1 where pv: "parseValue n s = Some (v, r1)"
    using p by (cases "parseValue n s") auto
  then have c1: "consumed s r1 (\<lambda>c. \<not> isWhiteSpace c)" by (rule V)
  have "(case skipWs r1 of
            [] \<Rightarrow> None
          | c # cs \<Rightarrow>
              if c = CHR '','' then map_option (apfst ((#) v)) (parseElements n cs)
              else if c = CHR '']'' then Some ([v], cs)
              else None) = Some (vs, r)"
    using p pv by simp
  then have "consumed r1 r (\<lambda>c. \<not> isWhiteSpace c)"
  proof (rule tail_consumed)
    show "\<And>cs y. parseElements n cs = Some (y, r) \<Longrightarrow> consumed cs r (\<lambda>c. \<not> isWhiteSpace c)"
      by (rule E)
    show "\<not> isWhiteSpace (CHR '']'')" by (simp add: isWhiteSpace_def)
  qed
  with c1 show ?thesis by (rule consumed_trans)
qed

lemma parseMembers_Suc_consumed:
  assumes V: "\<And>s v r. parseValue n s = Some (v, r) \<Longrightarrow> consumed s r (\<lambda>c. \<not> isWhiteSpace c)"
    and M: "\<And>s v r. parseMembers n s = Some (v, r) \<Longrightarrow> consumed s r (\<lambda>c. \<not> isWhiteSpace c)"
    and p: "parseMembers (Suc n) s = Some (vs, r)"
  shows "consumed s r (\<lambda>c. \<not> isWhiteSpace c)"
proof -
  obtain q s1 where sk: "skipWs s = q # s1"
    using p by (cases "skipWs s") auto
  have q: "q = CHR 0x22" using p sk by (auto split: if_splits)
  obtain k s2 where pk: "parseChars s1 = Some (k, s2)"
    using p sk q by (cases "parseChars s1") auto
  have colon: "take 1 (skipWs s2) = '':''"
    using p sk q pk by (auto split: if_splits)
  let ?s3 = "drop 1 (skipWs s2)"
  obtain v r1 where pv: "parseValue n ?s3 = Some (v, r1)"
    using p sk q pk colon by (cases "parseValue n ?s3") auto
  then have "consumed ?s3 r1 (\<lambda>c. \<not> isWhiteSpace c)" by (rule V)
  then have "consumed (skipWs s2) r1 (\<lambda>c. \<not> isWhiteSpace c)" by (rule consumed_drop)
  then have c2: "consumed s2 r1 (\<lambda>c. \<not> isWhiteSpace c)" by (rule consumed_skipWs)
  have "consumed s1 s2 (\<lambda>c. c = CHR 0x22)" using pk by (rule parseChars_consumed)
  then obtain a where "s1 = a @ s2" unfolding consumed_def by blast
  then have "consumed s1 r1 (\<lambda>c. \<not> isWhiteSpace c)"
    using c2 consumed_prepend by blast
  then have "consumed (q # s1) r1 (\<lambda>c. \<not> isWhiteSpace c)" by (rule consumed_Cons)
  then have c1: "consumed s r1 (\<lambda>c. \<not> isWhiteSpace c)"
    using sk consumed_skipWs by metis
  have "(case skipWs r1 of
            [] \<Rightarrow> None
          | c # cs \<Rightarrow>
              if c = CHR '','' then map_option (apfst ((#) (k, v))) (parseMembers n cs)
              else if c = CHR ''}'' then Some ([(k, v)], cs)
              else None) = Some (vs, r)"
    using p sk q pk colon pv by simp
  then have "consumed r1 r (\<lambda>c. \<not> isWhiteSpace c)"
  proof (rule tail_consumed)
    show "\<And>cs y. parseMembers n cs = Some (y, r) \<Longrightarrow> consumed cs r (\<lambda>c. \<not> isWhiteSpace c)"
      by (rule M)
    show "\<not> isWhiteSpace (CHR ''}'')" by (simp add: isWhiteSpace_def)
  qed
  with c1 show ?thesis by (rule consumed_trans)
qed

lemma parse_consumed:
  "(\<forall>s v r. parseValue n s = Some (v, r) \<longrightarrow> consumed s r (\<lambda>c. \<not> isWhiteSpace c))
   \<and> (\<forall>s v r. parseElements n s = Some (v, r) \<longrightarrow> consumed s r (\<lambda>c. \<not> isWhiteSpace c))
   \<and> (\<forall>s v r. parseMembers n s = Some (v, r) \<longrightarrow> consumed s r (\<lambda>c. \<not> isWhiteSpace c))"
proof (induction n)
  case 0
  show ?case by simp
next
  case (Suc n)
  then have V: "\<And>s v r. parseValue n s = Some (v, r) \<Longrightarrow> consumed s r (\<lambda>c. \<not> isWhiteSpace c)"
    and E: "\<And>s v r. parseElements n s = Some (v, r) \<Longrightarrow> consumed s r (\<lambda>c. \<not> isWhiteSpace c)"
    and M: "\<And>s v r. parseMembers n s = Some (v, r) \<Longrightarrow> consumed s r (\<lambda>c. \<not> isWhiteSpace c)"
    by blast+
  show ?case
  proof (intro conjI allI impI)
    fix s v r
    assume "parseValue (Suc n) s = Some (v, r)"
    with E M show "consumed s r (\<lambda>c. \<not> isWhiteSpace c)"
      by (rule parseValue_Suc_consumed)
  next
    fix s v r
    assume "parseElements (Suc n) s = Some (v, r)"
    with V E show "consumed s r (\<lambda>c. \<not> isWhiteSpace c)"
      by (rule parseElements_Suc_consumed)
  next
    fix s v r
    assume "parseMembers (Suc n) s = Some (v, r)"
    with V M show "consumed s r (\<lambda>c. \<not> isWhiteSpace c)"
      by (rule parseMembers_Suc_consumed)
  qed
qed


lemma parseNumber_head:
  assumes "parseNumber s = Some x"
  shows "s \<noteq> [] \<and> \<not> isWhiteSpace (hd s)"
proof (cases "take 1 s = ''-''")
  case True
  then have "s \<noteq> []" "hd s = CHR ''-''" by (cases s; simp)+
  then show ?thesis by (simp add: isWhiteSpace_def)
next
  case False
  then have "takeWhile isDigit s \<noteq> []"
    using assms
    by (auto simp: parseNumber_def signStage_def digitsStage_def split: prod.splits if_splits)
  then have "s \<noteq> []" "isDigit (hd s)" by (cases s; simp split: if_splits)+
  then show ?thesis using digit_not_whiteSpace by blast
qed

lemma parseScalar_head:
  assumes "parseScalar s = Some x"
  shows "s \<noteq> [] \<and> \<not> isWhiteSpace (hd s)"
proof -
  consider "take 1 s = [CHR 0x22]" | "take 4 s = ''true''" | "take 5 s = ''false''"
    | "take 4 s = ''null''" | "parseNumber s = Some x"
    using assms by (auto simp: parseScalar_def split: if_splits)
  then show ?thesis
  proof cases
    case 5
    then show ?thesis by (rule parseNumber_head)
  qed (cases s; simp add: isWhiteSpace_def; fail)+
qed

lemma parseValue_head:
  assumes "parseValue n s = Some (v, r)"
  shows "\<exists>c cs. skipWs s = c # cs \<and> \<not> isWhiteSpace c \<and> parseValue n (c # cs) = Some (v, r)"
proof -
  obtain m where n: "n = Suc m" using assms by (cases n) auto
  obtain c cs where sk: "skipWs s = c # cs"
    using assms n by (cases "skipWs s") auto
  have nw: "\<not> isWhiteSpace c"
  proof (cases "c = CHR ''{'' \<or> c = CHR ''[''")
    case True
    then show ?thesis by (auto simp: isWhiteSpace_def)
  next
    case False
    then have "parseScalar (c # cs) = Some (v, r)"
      using assms n sk by simp
    from parseScalar_head [OF this] show ?thesis by simp
  qed
  then have "\<not> isJsonWs c" using jsonWs_whiteSpace by blast
  then have "skipWs (c # cs) = c # cs" by (simp add: skipWs_def)
  then have "parseValue (Suc m) (c # cs) = parseValue (Suc m) s"
    using sk by simp
  then show ?thesis using assms n sk nw by simp
qed

lemma dropWhile_whiteSpace_skipWs:
  assumes "skipWs s = c # cs" and "\<not> isWhiteSpace c"
  shows "dropWhile isWhiteSpace s = c # cs"
proof -
  obtain l where l: "s = l @ skipWs s" "\<forall>c\<in>set l. isJsonWs c"
    using skipWs_decomp by blast
  then have "\<forall>c\<in>set l. isWhiteSpace c" using jsonWs_whiteSpace by blast
  then have "dropWhile isWhiteSpace (l @ c # cs) = dropWhile isWhiteSpace (c # cs)"
    by (intro dropWhile_append2) blast
  then show ?thesis using l(1) assms by simp
qed

lemma trim_core:
  assumes "dropWhile isWhiteSpace t = a @ r" and "a \<noteq> []" and "\<not> isWhiteSpace (last a)"
    and "\<forall>c\<in>set r. isWhiteSpace c"
  shows "trim t = a"
proof -
  have "dropWhile isWhiteSpace (rev r @ rev a) = dropWhile isWhiteSpace (rev a)"
    by (rule dropWhile_append2) (simp add: assms(4))
  also have "\<dots> = rev a"
  proof (cases "rev a")
    case Nil
    then show ?thesis by simp
  next
    case (Cons x xs)
    then have "x = last a" using hd_rev [of a] by simp
    then have "dropWhile isWhiteSpace (x # xs) = x # xs" using assms(3) by simp
    then show ?thesis unfolding Cons .
  qed
  finally show ?thesis using assms(1) by (simp add: trim_def)
qed

lemma JSON_parse_trim:
  assumes "JSON_parse t = Inr v"
  shows "JSON_parse (trim t) = Inr v"
proof -
  from assms obtain n r where p: "parseValue n t = Some (v, r)" and r: "skipWs r = []"
    unfolding JSON_parse_any_fuel by blast
  from parseValue_head [OF p] obtain c cs where sk: "skipWs t = c # cs"
    and nw: "\<not> isWhiteSpace c" and pc: "parseValue n (c # cs) = Some (v, r)"
    by blast
  have "consumed (c # cs) r (\<lambda>c. \<not> isWhiteSpace c)"
    using parse_consumed [of n] pc by blast
  then obtain a where a: "c # cs = a @ r" "a \<noteq> []" "\<not> isWhiteSpace (last a)"
    unfolding consumed_def by blast
  have ws: "\<forall>c\<in>set r. isJsonWs c" using r by (simp only: skipWs_Nil_iff)
  then have "\<forall>c\<in>set r. isWhiteSpace c" using jsonWs_whiteSpace by blast
  moreover have "dropWhile isWhiteSpace t = a @ r"
    using dropWhile_whiteSpace_skipWs [OF sk nw] a(1) by simp
  ultimately have tr: "trim t = a" using a(2,3) trim_core by blast
  have "parseValue n (a @ r) = map_option (apsnd (\<lambda>x. x @ r)) (parseValue n a)"
    using parse_append_ws [OF ws, of n] by blast
  then have "map_option (apsnd (\<lambda>x. x @ r)) (parseValue n a) = Some (v, r)"
    using pc a(1) by simp
  then have "parseValue n a = Some (v, [])"
    by (cases "parseValue n a") (auto simp: apsnd_def map_prod_def split: prod.splits)
  then have "JSON_parse a = Inr v"
    unfolding JSON_parse_any_fuel by (intro exI [of _ n] exI [of _ "[]"]) (simp add: skipWs_def)
  then show ?thesis using tr by simp
qed

subsection \<open>Requests in flight\<close>

lemma oneInFlight_step: "oneInFlight s \<Longrightarrow> oneInFlight (step parse API_KEY s ev)"
proof (cases ev)
  case (Settle x r)
  assume inv: "oneInFlight s"
  show ?thesis
  proof (cases "x \<in> set (suspended s)")
    case True
    with inv have "suspended s = [x]"
      by (cases "suspended s") (auto simp: oneInFlight_def)
    then show ?thesis
      using Settle True
      by (simp add: oneInFlight_def generatePackingList_resume_def
          split: outcome.splits sum.splits)
  next
    case False
    then show ?thesis using Settle inv by simp
  qed
qed (auto simp: oneInFlight_def ctl_defs)

lemma oneInFlight_step_src: "oneInFlight s \<Longrightarrow> oneInFlight (step_src parse API_KEY s ev)"
proof (cases ev)
  case (Settle x r)
  assume inv: "oneInFlight s"
  show ?thesis
  proof (cases "x \<in> set (suspended s)")
    case True
    with inv have "suspended s = [x]"
      by (cases "suspended s") (auto simp: oneInFlight_def)
    then show ?thesis
      using Settle True
      by (simp add: oneInFlight_def generatePackingList_resume_src_def catch_src_def
          split: outcome.splits sum.splits)
  next
    case False
    then show ?thesis using Settle inv by simp
  qed
qed (auto simp: oneInFlight_def ctl_src_defs)

lemma oneInFlight_run: "oneInFlight (run parse API_KEY evs)"
proof -
  have "oneInFlight s \<Longrightarrow> oneInFlight (foldl (step parse API_KEY) s evs)" for s
    by (induction evs arbitrary: s) (simp_all add: oneInFlight_step)
  then show ?thesis
    by (simp add: run_def oneInFlight_def init_def)
qed

lemma oneInFlight_run_src: "oneInFlight (run_src parse API_KEY evs)"
proof -
  have "oneInFlight s \<Longrightarrow> oneInFlight (foldl (step_src parse API_KEY) s evs)" for s
    by (induction evs arbitrary: s) (simp_all add: oneInFlight_step_src)
  then show ?thesis
    by (simp add: run_src_def oneInFlight_def init_def)
qed

subsection \<open>Appending to the transcript\<close>

lemma pairs_append: "pairs (ps @ qs) = pairs ps @ pairs qs"
  by (simp add: pairs_def)

lemma step_appends:
  "\<exists>ps. messages (step parse API_KEY s ev) = messages s @ pairs ps \<and> length ps \<le> 1"
proof (cases ev)
  case (Change t)
  then have "messages (step parse API_KEY s ev) = messages s @ pairs []"
    by (simp add: pairs_def)
  then show ?thesis by force
next
  case Submit
  show ?thesis
  proof (cases "trim (input s) = [] \<or> isLoading s \<or> \<not> keyMissing API_KEY")
    case True
    then have "messages (step parse API_KEY s ev) = messages s @ pairs []"
      using Submit by (auto simp: ctl_defs pairs_def)
    then show ?thesis by force
  next
    case False
    then have "messages (step parse API_KEY s ev) =
        messages s @ pairs [(input s, msgNotConfigured)]"
      using Submit by (auto simp: ctl_defs pairs_def)
    then show ?thesis by force
  qed
next
  case (Settle x r)
  show ?thesis
  proof (cases "x \<in> set (suspended s)")
    case False
    then have "messages (step parse API_KEY s ev) = messages s @ pairs []"
      using Settle by (simp add: pairs_def)
    then show ?thesis by force
  next
    case True
    then have "\<exists>a. messages (step parse API_KEY s ev) = messages s @ pairs [(x, a)]"
      using Settle by (auto simp: ctl_defs pairs_def split: outcome.splits sum.splits)
    then show ?thesis by force
  qed
qed

lemma step_src_appends:
  "\<exists>ps. messages (step_src parse API_KEY s ev) = messages s @ pairs ps \<and> length ps \<le> 1"
proof (cases ev)
  case (Change t)
  then have "messages (step_src parse API_KEY s ev) = messages s @ pairs []"
    by (simp add: pairs_def)
  then show ?thesis by force
next
  case Submit
  show ?thesis
  proof (cases "trim (input s) = [] \<or> isLoading s \<or> \<not> keyMissing API_KEY")
    case True
    then have "messages (step_src parse API_KEY s ev) = messages s @ pairs []"
      using Submit by (auto simp: ctl_src_defs pairs_def)
    then show ?thesis by force
  next
    case False
    then have "messages (step_src parse API_KEY s ev) =
        messages s @ pairs [(input s, msgNotConfigured)]"
      using Submit by (auto simp: ctl_src_defs pairs_def)
    then show ?thesis by force
  qed
next
  case (Settle x r)
  show ?thesis
  proof (cases "x \<in> set (suspended s)")
    case False
    then have "messages (step_src parse API_KEY s ev) = messages s @ pairs []"
      using Settle by (simp add: pairs_def)
    then show ?thesis by force
  next
    case True
    then have "\<exists>a. messages (step_src parse API_KEY s ev) = messages s @ pairs [(x, a)]"
      using Settle by (auto simp: ctl_src_defs pairs_def split: outcome.splits sum.splits)
    then show ?thesis by force
  qed
qed

lemma foldl_appends:
  assumes "\<And>s ev. \<exists>ps. messages (f s ev) = messages s @ pairs ps \<and> length ps \<le> 1"
  shows "\<exists>ps. messages (foldl f s evs) = messages s @ pairs ps"
proof (induction evs arbitrary: s)
  case Nil
  have "messages s = messages s @ pairs []" by (simp add: pairs_def)
  then show ?case by auto
next
  case (Cons ev evs)
  obtain ps where ps: "messages (f s ev) = messages s @ pairs ps"
    using assms by blast
  obtain qs where "messages (foldl f (f s ev) evs) = messages (f s ev) @ pairs qs"
    using Cons.IH by blast
  then have "messages (foldl f s (ev # evs)) = messages s @ pairs (ps @ qs)"
    using ps by (simp add: pairs_append)
  then show ?case by blast
qed

subsection \<open>The renderer on a value without categories\<close>

lemma PackingListDisplay_TypeError:
  assumes "\<nexists>ms xs. v = JObject ms \<and> map_of (rev ms) ''categories'' = Some (JArray xs)"
  shows "PackingListDisplay v = Inl TypeError"
proof (cases v)
  case (JObject ms)
  with assms have "\<nexists>xs. map_of (rev ms) ''categories'' = Some (JArray xs)"
    by simp
  then show ?thesis
    using JObject
    by (auto simp: PackingListDisplay_def getProp_def callMap_def
        split: option.splits json.splits)
qed (simp_all add: PackingListDisplay_def getProp_def callMap_def)

section \<open>Verified properties\<close>

subsection \<open>C1: a response that does not parse\<close>

text \<open>
  C1. When the call succeeds and the cleaned text does not parse, the controller of
  \<open>part_001\<close> appends the user message with the raw text and the fixed
  invalid-response-format assistant message, leaves the configuration-invalid flag unset
  and leaves the stored packing list as it was. The controller of \<open>src/src/App.tsx\<close>
  does not: there the \<open>SyntaxError\<close> is handled as a failure of the call, so the
  assistant message is the retry message (or the invalid-key message, by the error's
  text) and the flag is set.
\<close>

theorem C1_malformed_response:
  assumes "\<not> keyMissing API_KEY" and "trim (input s) \<noteq> []" and "\<not> isLoading s"
  shows "(parse (cleanText text) = Inl e \<longrightarrow>
            messages (submit parse API_KEY (Responded text) s) =
              messages s @ [userMsg (input s), assistantMsg msgInvalidFormat]
            \<and> \<not> apiKeyError (submit parse API_KEY (Responded text) s)
            \<and> packingList (submit parse API_KEY (Responded text) s) = packingList s)
         \<and> (parse text = Inl e \<longrightarrow>
            messages (submit_src parse API_KEY (Responded text) s) =
              messages s @ [userMsg (input s), assistantMsg
                (if includes_str e ''API_KEY_INVALID'' then msgInvalidKey else msgRetry)]
            \<and> apiKeyError (submit_src parse API_KEY (Responded text) s)
            \<and> packingList (submit_src parse API_KEY (Responded text) s) = packingList s)"
  using assms by (simp add: ctl_defs ctl_src_defs errorMessage_src_def)

theorem C1_malformed_response_witness:
  "\<not> keyMissing (Some ''key'')
   \<and> trim (input ((typed ''Beach'')\<lparr>packingList := exampleList\<rparr>)) \<noteq> []
   \<and> \<not> isLoading ((typed ''Beach'')\<lparr>packingList := exampleList\<rparr>)
   \<and> JSON_parse (cleanText ''not json'') = Inl ''Unexpected token''
   \<and> JSON_parse ''not json'' = Inl ''Unexpected token''
   \<and> messages (submit JSON_parse (Some ''key'') (Responded ''not json'')
         ((typed ''Beach'')\<lparr>packingList := exampleList\<rparr>)) =
       [userMsg ''Beach'', assistantMsg msgInvalidFormat]
   \<and> \<not> apiKeyError (submit JSON_parse (Some ''key'') (Responded ''not json'')
         ((typed ''Beach'')\<lparr>packingList := exampleList\<rparr>))
   \<and> packingList (submit JSON_parse (Some ''key'') (Responded ''not json'')
         ((typed ''Beach'')\<lparr>packingList := exampleList\<rparr>)) = exampleList
   \<and> messages (submit_src JSON_parse (Some ''key'') (Responded ''not json'')
         ((typed ''Beach'')\<lparr>packingList := exampleList\<rparr>)) =
       [userMsg ''Beach'', assistantMsg msgRetry]
   \<and> apiKeyError (submit_src JSON_parse (Some ''key'') (Responded ''not json'')
         ((typed ''Beach'')\<lparr>packingList := exampleList\<rparr>))"
proof -
  let ?s = "(typed ''Beach'')\<lparr>packingList := exampleList\<rparr>"
  have h: "\<not> keyMissing (Some ''key'')" "trim (input ?s) \<noteq> []" "\<not> isLoading ?s"
    by (simp_all add: typed_fields trim_examples)
  show ?thesis
    using C1_malformed_response [OF h, of JSON_parse "''not json''" "''Unexpected token''"]
      h parse_examples includes_examples
    by (simp add: typed_fields)
qed

subsection \<open>C2: fence stripping\<close>

text \<open>
  C2, as amended. For every payload, cleaning the response that wraps it as an opening
  \<open>```json\<close> line, the payload and a closing \<open>```\<close> line gives the very text that
  cleaning the payload alone gives, so the two responses parse alike and leave the
  controller of \<open>part_001\<close> in the same state. Fence removal leaves a text as it is
  exactly when the text holds no three consecutive backticks, and cleaning leaves it as it
  is exactly when, besides, it neither starts nor ends with white space. So a payload
  without three consecutive backticks is cleaned to itself without its leading and
  trailing white space, bare or wrapped, with or without the newline behind the opening
  marker and before the closing marker (where no newline precedes the closing marker,
  the payload must not end in a newline followed by one or two backticks), and cleaning
  that text once more changes nothing. Cleaning twice gives what cleaning once gives
  exactly when the text cleaned once holds no three consecutive backticks. A payload
  without three consecutive backticks that \<open>JSON_parse\<close> reads as a value is read as the
  same value after cleaning, bare or wrapped in any of these layouts.
\<close>

theorem C2_fence_stripping:
  "cleanText (wrapFence p) = cleanText p
   \<and> submit parse API_KEY (Responded (wrapFence p)) s = submit parse API_KEY (Responded p) s
   \<and> wrapFenceWith True True p = wrapFence p
   \<and> (removeFences p = p \<longleftrightarrow> \<not> includes_str p ''```'')
   \<and> (cleanText p = p \<longleftrightarrow> \<not> includes_str p ''```'' \<and> trimmed p)
   \<and> (\<not> includes_str p ''```'' \<longrightarrow> cleanText p = trim p \<and> cleanText (trim p) = trim p)
   \<and> (\<not> includes_str p ''```''
        \<and> (b \<or> (\<not> endsWith p (newline # ''`'') \<and> \<not> endsWith p (newline # ''``'')))
        \<longrightarrow> cleanText (wrapFenceWith a b p) = trim p)
   \<and> (cleanText (cleanText t) = cleanText t \<longleftrightarrow> \<not> includes_str (cleanText t) ''```'')
   \<and> (JSON_parse p = Inr v \<and> \<not> includes_str p ''```''
        \<and> (b \<or> (\<not> endsWith p (newline # ''`'') \<and> \<not> endsWith p (newline # ''``'')))
        \<longrightarrow> JSON_parse (cleanText (wrapFenceWith a b p)) = Inr v
          \<and> JSON_parse (cleanText p) = Inr v)"
proof -
  have c1: "cleanText (wrapFence p) = cleanText p"
    using removeFences_opening [of "p @ newline # ''```''"] removeFences_closing [of p]
    by (simp add: cleanText_def wrapFence_def)
  then have c2: "submit parse API_KEY (Responded (wrapFence p)) s
      = submit parse API_KEY (Responded p) s"
    by (simp add: submit_def generatePackingList_resume_def)
  have c3: "wrapFenceWith True True p = wrapFence p"
    by (simp add: wrapFenceWith_def wrapFence_def)
  have c4: "removeFences p = p \<longleftrightarrow> \<not> includes_str p ''```''"
    by (rule removeFences_id_iff)
  have c6: "cleanText p = trim p \<and> cleanText (trim p) = trim p"
    if no: "\<not> includes_str p ''```''"
  proof -
    have "\<not> includes_str (trim p) ''```''"
      using no by (rule no_marker_trim)
    then show ?thesis
      using no by (simp add: cleanText_def removeFences_no_marker trim_idem)
  qed
  have c5: "cleanText p = p \<longleftrightarrow> \<not> includes_str p ''```'' \<and> trimmed p"
  proof
    assume e: "cleanText p = p"
    have "\<not> includes_str p ''```''"
    proof
      assume "includes_str p ''```''"
      then have "length (removeFences p) < length p"
        by (rule removeFences_marker_shorter)
      moreover have "length (cleanText p) \<le> length (removeFences p)"
        unfolding cleanText_def by (rule length_trim)
      ultimately have "length (cleanText p) < length p" by simp
      then show False using e by simp
    qed
    moreover have "trimmed (cleanText p)"
      unfolding cleanText_def by (rule trimmed_trim)
    ultimately show "\<not> includes_str p ''```'' \<and> trimmed p"
      using e by simp
  next
    assume "\<not> includes_str p ''```'' \<and> trimmed p"
    then show "cleanText p = p"
      using c6 trim_trimmed by simp
  qed
  have c7: "cleanText (wrapFenceWith a b p) = trim p"
    if "\<not> includes_str p ''```''"
      and "b \<or> (\<not> endsWith p (newline # ''`'') \<and> \<not> endsWith p (newline # ''``''))"
    using that by (rule cleanText_wrapFenceWith)
  have c8: "cleanText (cleanText t) = cleanText t \<longleftrightarrow> \<not> includes_str (cleanText t) ''```''"
    by (rule cleanText_idem_iff)
  have c9: "JSON_parse (cleanText (wrapFenceWith a b p)) = Inr v
      \<and> JSON_parse (cleanText p) = Inr v"
    if "JSON_parse p = Inr v" and "\<not> includes_str p ''```''"
      and "b \<or> (\<not> endsWith p (newline # ''`'') \<and> \<not> endsWith p (newline # ''``''))"
    using c6 [OF that(2)] c7 [OF that(2,3)] JSON_parse_trim [OF that(1)] by simp
  show ?thesis
    using c1 c2 c3 c4 c5 c6 c7 c8 c9 by blast
qed

text \<open>
  A payload with a single and a double backtick, wrapped without either newline, and the
  example of the spec wrapped with both.
\<close>

theorem C2_fence_stripping_witness:
  "JSON_parse tickText = Inr tickList
   \<and> \<not> includes_str tickText ''```''
   \<and> \<not> endsWith tickText (newline # ''`'') \<and> \<not> endsWith tickText (newline # ''``'')
   \<and> cleanText tickText = tickText
   \<and> cleanText (wrapFenceWith False False tickText) = tickText
   \<and> JSON_parse (cleanText (wrapFenceWith False False tickText)) = Inr tickList
   \<and> \<not> includes_str exampleText ''```''
   \<and> cleanText (wrapFence exampleText) = exampleText
   \<and> JSON_parse (cleanText (wrapFence exampleText)) = Inr exampleList"
  using C2_fence_stripping [of tickText JSON_parse None "typed []" False False "[]" tickList]
    C2_fence_stripping [of exampleText JSON_parse None "typed []" True True "[]" exampleList]
    marker_examples trim_examples parse_exampleText parse_more_examples
  by simp

text \<open>
  The claim as stated fails twice. Cleaning is not idempotent: two backticks, a newline
  and four backticks clean to three backticks, which clean to nothing. And cleaning
  alters a payload that holds a fence marker: the packing list whose category is named
  by three backticks comes out, wrapped or not, with a category of the empty name.
\<close>

theorem C2_counterexample:
  "cleanText (cleanText (''``'' @ [newline] @ ''````''))
     \<noteq> cleanText (''``'' @ [newline] @ ''````'')
   \<and> cleanText (wrapFence backtickText) \<noteq> backtickText
   \<and> JSON_parse backtickText = Inr (backtickList ''```'')
   \<and> JSON_parse (cleanText (wrapFence backtickText)) = Inr (backtickList [])
   \<and> backtickList [] \<noteq> backtickList ''```''"
  by code_simp

subsection \<open>C3: the configuration-invalid flag after an authentication error\<close>

text \<open>
  C3, as amended. After a call fails with an authentication-class error the flag is set
  and the input is empty, so the text field and the submit button are disabled and a
  submission in that state is a silent no-op: nothing is appended, no request is sent.
  The submit handler itself does not read the flag: given non-blank text in that state
  (and a key) it clears the flag and sends a new request. Both controllers behave so.
\<close>

theorem C3_gate:
  fixes parse :: "string \<Rightarrow> string + json" and API_KEY :: "string option"
    and m :: string and s s1 s2 :: app
  assumes "\<not> keyMissing API_KEY" and "trim (input s) \<noteq> []" and "\<not> isLoading s"
    and "includes_str m ''API_KEY_INVALID''"
  defines "s1 \<equiv> submit parse API_KEY (Rejected (ErrorObj m)) s"
    and "s2 \<equiv> submit_src parse API_KEY (Rejected (ErrorObj m)) s"
  shows "apiKeyError s1 \<and> input s1 = [] \<and> inputDisabled s1 \<and> buttonDisabled s1
         \<and> handleSubmit API_KEY s1 = s1
         \<and> (\<forall>t. trim t \<noteq> [] \<longrightarrow>
               handleSubmit API_KEY (s1\<lparr>input := t\<rparr>) =
                 s1\<lparr>input := t, isLoading := True, apiKeyError := False,
                    calls := calls s1 @ [prompt t], suspended := suspended s1 @ [t]\<rparr>)
         \<and> apiKeyError s2 \<and> input s2 = [] \<and> inputDisabled s2 \<and> buttonDisabled s2
         \<and> handleSubmit_src API_KEY s2 = s2
         \<and> (\<forall>t. trim t \<noteq> [] \<longrightarrow>
               handleSubmit_src API_KEY (s2\<lparr>input := t\<rparr>) =
                 s2\<lparr>input := t, isLoading := True, apiKeyError := False,
                    calls := calls s2 @ [prompt_src t], suspended := suspended s2 @ [t]\<rparr>)"
  using assms
  by (simp add: ctl_defs ctl_src_defs inputDisabled_def buttonDisabled_def trim_Nil)

theorem C3_gate_witness:
  "\<not> keyMissing (Some ''key'') \<and> trim (input (typed ''Beach'')) \<noteq> []
   \<and> \<not> isLoading (typed ''Beach'')
   \<and> includes_str ''[400] API_KEY_INVALID'' ''API_KEY_INVALID''
   \<and> trim ''Again'' \<noteq> []
   \<and> apiKeyError (submit JSON_parse (Some ''key'')
         (Rejected (ErrorObj ''[400] API_KEY_INVALID'')) (typed ''Beach''))
   \<and> handleSubmit (Some ''key'') (submit JSON_parse (Some ''key'')
         (Rejected (ErrorObj ''[400] API_KEY_INVALID'')) (typed ''Beach''))
       = submit JSON_parse (Some ''key'')
           (Rejected (ErrorObj ''[400] API_KEY_INVALID'')) (typed ''Beach'')
   \<and> calls (handleSubmit (Some ''key'') ((submit JSON_parse (Some ''key'')
         (Rejected (ErrorObj ''[400] API_KEY_INVALID'')) (typed ''Beach''))\<lparr>input := ''Again''\<rparr>))
       = [prompt ''Beach'', prompt ''Again'']"
proof -
  have h: "\<not> keyMissing (Some ''key'')" "trim (input (typed ''Beach'')) \<noteq> []"
    "\<not> isLoading (typed ''Beach'')"
    "includes_str ''[400] API_KEY_INVALID'' ''API_KEY_INVALID''"
    by (simp_all add: typed_fields trim_examples includes_examples)
  have c: "calls (submit JSON_parse (Some ''key'')
      (Rejected (ErrorObj ''[400] API_KEY_INVALID'')) (typed ''Beach'')) = [prompt ''Beach'']"
    by (simp add: ctl_defs typed_fields trim_examples)
  show ?thesis
    using C3_gate [OF h, of JSON_parse] h c trim_examples
    by simp
qed

text \<open>
  The claim as stated fails: with the flag set by an authentication error, no submission
  takes the configuration-error path. Submitting the input as the failure left it
  (empty) appends nothing at all; submitting non-blank text clears the flag and sends a
  second request. In neither case is a configuration-error message appended.
\<close>

theorem C3_counterexample:
  "apiKeyError (run JSON_parse (Some ''key'')
      [Change ''Beach'', Submit,
       Settle ''Beach'' (Rejected (ErrorObj ''[400] API_KEY_INVALID''))])
   \<and> run JSON_parse (Some ''key'')
      [Change ''Beach'', Submit,
       Settle ''Beach'' (Rejected (ErrorObj ''[400] API_KEY_INVALID'')), Submit] =
     \<lparr>messages = [userMsg ''Beach'', assistantMsg msgInvalidKey],
      input = [], isLoading = False, packingList = JNull, apiKeyError = True,
      calls = [prompt ''Beach''], suspended = []\<rparr>
   \<and> run JSON_parse (Some ''key'')
      [Change ''Beach'', Submit,
       Settle ''Beach'' (Rejected (ErrorObj ''[400] API_KEY_INVALID'')),
       Change ''Again'', Submit] =
     \<lparr>messages = [userMsg ''Beach'', assistantMsg msgInvalidKey],
      input = ''Again'', isLoading = True, packingList = JNull, apiKeyError = False,
      calls = [prompt ''Beach'', prompt ''Again''], suspended = [''Again'']\<rparr>"
  by (simp add: run_def init_def keyMissing_def ctl_defs trim_examples trim_Nil
      errorMessage_def includes_examples)

subsection \<open>C4: blank text and pending requests\<close>

text \<open>
  C4. A submission is a silent no-op whenever the text is empty or white space only, or a
  request is pending: the state, with its transcript, packing list, input, flag and the
  log of requests sent, stays as it is. Hence in every state the page can reach, by any
  sequence of events, at most one request is in flight. Both controllers behave so.
\<close>

theorem C4_silent_noop:
  "(trim (input s) = [] \<or> isLoading s \<longrightarrow>
      handleSubmit API_KEY s = s \<and> submit parse API_KEY result s = s
      \<and> handleSubmit_src API_KEY s = s \<and> submit_src parse API_KEY result s = s)
   \<and> length (suspended (run parse API_KEY evs)) \<le> 1
   \<and> length (suspended (run_src parse API_KEY evs)) \<le> 1"
  using oneInFlight_run [of parse API_KEY evs] oneInFlight_run_src [of parse API_KEY evs]
  by (auto simp: oneInFlight_def ctl_defs ctl_src_defs)

theorem C4_silent_noop_witness:
  "trim (input (typed ''   '')) = []
   \<and> handleSubmit (Some ''key'') (typed ''   '') = typed ''   ''
   \<and> isLoading (handleSubmit (Some ''key'') (typed ''Beach''))
   \<and> handleSubmit (Some ''key'') (handleSubmit (Some ''key'') (typed ''Beach''))
       = handleSubmit (Some ''key'') (typed ''Beach'')
   \<and> calls (handleSubmit (Some ''key'') (handleSubmit (Some ''key'') (typed ''Beach'')))
       = [prompt ''Beach'']"
proof -
  have b: "trim (input (typed ''   '')) = []"
    by (simp add: typed_fields trim_examples)
  have l: "isLoading (handleSubmit (Some ''key'') (typed ''Beach''))"
    by (simp add: handleSubmit_def generatePackingList_begin_def typed_fields trim_examples)
  have c: "calls (handleSubmit (Some ''key'') (typed ''Beach'')) = [prompt ''Beach'']"
    by (simp add: handleSubmit_def generatePackingList_begin_def typed_fields trim_examples)
  show ?thesis
    using C4_silent_noop [of "typed ''   ''" "Some ''key''" JSON_parse "Responded []" "[]"]
      C4_silent_noop [of "handleSubmit (Some ''key'') (typed ''Beach'')" "Some ''key''"
        JSON_parse "Responded []" "[]"] b l c
    by simp
qed

subsection \<open>C5: no credential configured\<close>

text \<open>
  C5. Without a configured credential, submitting non-blank text appends exactly two
  messages, the user message with that text and then the fixed configuration-error
  assistant message, sends no request, sets the configuration-invalid flag and clears the
  input; nothing else changes. Both controllers do so.
\<close>

theorem C5_missing_key:
  assumes "keyMissing API_KEY" and "trim (input s) \<noteq> []" and "\<not> isLoading s"
  shows "submit parse API_KEY result s =
           s\<lparr>messages := messages s @ [userMsg (input s), assistantMsg msgNotConfigured],
             input := [], apiKeyError := True\<rparr>
         \<and> calls (submit parse API_KEY result s) = calls s
         \<and> submit_src parse API_KEY result s = submit parse API_KEY result s"
  using assms by (simp add: ctl_defs ctl_src_defs)

theorem C5_missing_key_witness:
  "keyMissing None \<and> trim ''X'' \<noteq> [] \<and> \<not> isLoading ((init None)\<lparr>input := ''X''\<rparr>)
   \<and> submit JSON_parse None (Responded []) ((init None)\<lparr>input := ''X''\<rparr>) =
       \<lparr>messages = [\<lparr>role = User, content = ''X''\<rparr>,
                    \<lparr>role = Assistant, content = msgNotConfigured\<rparr>],
        input = [], isLoading = False, packingList = JNull, apiKeyError = True,
        calls = [], suspended = []\<rparr>"
  using C5_missing_key [of None "(init None)\<lparr>input := ''X''\<rparr>" JSON_parse "Responded []"]
  by (simp add: keyMissing_def init_def trim_examples userMsg_def assistantMsg_def)

subsection \<open>C6: a response that parses\<close>

text \<open>
  C6, as amended. When the call succeeds and the text the controller hands to the parser
  parses, the stored packing list becomes the parsed value, whatever was stored before,
  and exactly two messages are appended: the user message with the raw input and then the
  fixed success message. The controller of \<open>src/src/App.tsx\<close> hands over the returned
  text as it came, so there the stored list is the structure the returned text parses to.
  The controller of \<open>part_001\<close> hands over the cleaned text: the stored list is the
  structure the returned text parses to when that text holds no three consecutive
  backticks, for \<open>JSON_parse\<close> and for every parser that reads the text alike with and
  without its leading and trailing white space.
\<close>

theorem C6_success:
  assumes "\<not> keyMissing API_KEY" and "trim (input s) \<noteq> []" and "\<not> isLoading s"
  shows "(parse (cleanText text) = Inr v \<longrightarrow>
            packingList (submit parse API_KEY (Responded text) s) = v
            \<and> messages (submit parse API_KEY (Responded text) s) =
                messages s @ [userMsg (input s), assistantMsg msgGenerated])
         \<and> (parse text = Inr v \<and> \<not> includes_str text ''```''
              \<and> parse (trim text) = parse text \<longrightarrow>
            packingList (submit parse API_KEY (Responded text) s) = v
            \<and> messages (submit parse API_KEY (Responded text) s) =
                messages s @ [userMsg (input s), assistantMsg msgGenerated])
         \<and> (parse text = Inr v \<longrightarrow>
            packingList (submit_src parse API_KEY (Responded text) s) = v
            \<and> messages (submit_src parse API_KEY (Responded text) s) =
                messages s @ [userMsg (input s), assistantMsg msgGenerated])
         \<and> (JSON_parse text = Inr v \<and> \<not> includes_str text ''```'' \<longrightarrow>
            packingList (submit JSON_parse API_KEY (Responded text) s) = v
            \<and> messages (submit JSON_parse API_KEY (Responded text) s) =
                messages s @ [userMsg (input s), assistantMsg msgGenerated])"
proof -
  have c: "cleanText text = trim text" if "\<not> includes_str text ''```''"
    using that by (simp add: cleanText_def removeFences_no_marker)
  have g: "packingList (submit f API_KEY (Responded text) s) = v
      \<and> messages (submit f API_KEY (Responded text) s) =
          messages s @ [userMsg (input s), assistantMsg msgGenerated]"
    if "f (cleanText text) = Inr v" for f
    using assms that by (simp add: ctl_defs)
  have a1: "parse (cleanText text) = Inr v"
    if "parse text = Inr v \<and> \<not> includes_str text ''```'' \<and> parse (trim text) = parse text"
    using that c by simp
  have a2: "packingList (submit_src parse API_KEY (Responded text) s) = v
      \<and> messages (submit_src parse API_KEY (Responded text) s) =
          messages s @ [userMsg (input s), assistantMsg msgGenerated]"
    if "parse text = Inr v"
    using assms that by (simp add: ctl_src_defs)
  have a3: "JSON_parse (cleanText text) = Inr v"
    if "JSON_parse text = Inr v \<and> \<not> includes_str text ''```''"
    using that c JSON_parse_trim [of "text" v] by simp
  show ?thesis
    using g [of parse] g [of JSON_parse] a1 a2 a3 by blast
qed

text \<open>
  The example of the spec, with white space around it: categories and items come out in
  the order written.
\<close>

theorem C6_success_witness:
  "\<not> keyMissing (Some ''key'') \<and> trim (input (typed ''Beach'')) \<noteq> []
   \<and> \<not> isLoading (typed ''Beach'')
   \<and> JSON_parse paddedText = Inr exampleList
   \<and> \<not> includes_str paddedText ''```''
   \<and> JSON_parse (trim paddedText) = JSON_parse paddedText
   \<and> JSON_parse (cleanText paddedText) = Inr exampleList
   \<and> packingList (submit JSON_parse (Some ''key'') (Responded paddedText) (typed ''Beach''))
       = JObject [(''categories'',
           JArray [JObject [(''name'', JString ''Clothing''),
                            (''items'', JArray [JString ''Shirt'', JString ''Pants''])]])]
   \<and> messages (submit JSON_parse (Some ''key'') (Responded paddedText) (typed ''Beach''))
       = [userMsg ''Beach'', assistantMsg msgGenerated]
   \<and> packingList (submit_src JSON_parse (Some ''key'') (Responded paddedText) (typed ''Beach''))
       = exampleList
   \<and> messages (submit_src JSON_parse (Some ''key'') (Responded paddedText) (typed ''Beach''))
       = [userMsg ''Beach'', assistantMsg msgGenerated]"
proof -
  have h: "\<not> keyMissing (Some ''key'')" "trim (input (typed ''Beach'')) \<noteq> []"
    "\<not> isLoading (typed ''Beach'')"
    by (simp_all add: typed_fields trim_examples)
  have p: "JSON_parse paddedText = Inr exampleList" "\<not> includes_str paddedText ''```''"
    "JSON_parse (trim paddedText) = JSON_parse paddedText"
    by (simp_all add: parse_more_examples marker_examples parse_exampleText)
  have c: "JSON_parse (cleanText paddedText) = Inr exampleList"
    using p by (simp add: cleanText_def removeFences_no_marker)
  show ?thesis
    using C6_success [OF h, of JSON_parse paddedText exampleList] h p c
    by (simp add: typed_fields exampleList_def)
qed

text \<open>
  The claim as stated fails in the controller of \<open>part_001\<close>: the returned text whose
  one category is named by three backticks parses as a packing list, and the list stored,
  under the success message, has a category of the empty name instead.
\<close>

theorem C6_counterexample:
  "JSON_parse backtickText = Inr (backtickList ''```'')
   \<and> packingList (submit JSON_parse (Some ''key'') (Responded backtickText) (typed ''Beach''))
       = backtickList []
   \<and> messages (submit JSON_parse (Some ''key'') (Responded backtickText) (typed ''Beach''))
       = [userMsg ''Beach'', assistantMsg msgGenerated]
   \<and> backtickList [] \<noteq> backtickList ''```''"
  by (simp add: ctl_defs typed_fields trim_examples parse_more_examples)

subsection \<open>C7: a call that fails\<close>

text \<open>
  C7, as amended. When the call fails, the controller of \<open>part_001\<close> appends the user
  message with the raw text and an assistant message chosen by what was thrown: for an
  \<open>Error\<close> whose message contains \<open>API_KEY_INVALID\<close> the invalid-key message, else
  for one whose message contains \<open>RATE_LIMIT_EXCEEDED\<close> the rate-limit message, else
  for any other \<open>Error\<close> the retry message, and for a thrown value that is no \<open>Error\<close>
  the fixed text "An unexpected error occurred". In every case it sets the
  configuration-invalid flag.
\<close>

theorem C7_call_failure:
  assumes "\<not> keyMissing API_KEY" and "trim (input s) \<noteq> []" and "\<not> isLoading s"
  shows "messages (submit parse API_KEY (Rejected error) s) =
           messages s @ [userMsg (input s), assistantMsg (errorMessage error)]
         \<and> apiKeyError (submit parse API_KEY (Rejected error) s)
         \<and> errorMessage error =
             (case error of
                ErrorObj m \<Rightarrow>
                  if includes_str m ''API_KEY_INVALID'' then msgInvalidKey
                  else if includes_str m ''RATE_LIMIT_EXCEEDED'' then msgRateLimit
                  else msgRetry
              | NonError \<Rightarrow> msgUnexpected)"
  using assms by (simp add: ctl_defs errorMessage_def)

theorem C7_call_failure_witness:
  "\<not> keyMissing (Some ''key'') \<and> trim (input (typed ''Beach'')) \<noteq> []
   \<and> \<not> isLoading (typed ''Beach'')
   \<and> messages (submit JSON_parse (Some ''key'')
         (Rejected (ErrorObj ''[429] RATE_LIMIT_EXCEEDED'')) (typed ''Beach''))
       = [userMsg ''Beach'', assistantMsg msgRateLimit]
   \<and> apiKeyError (submit JSON_parse (Some ''key'')
         (Rejected (ErrorObj ''[429] RATE_LIMIT_EXCEEDED'')) (typed ''Beach''))"
proof -
  have h: "\<not> keyMissing (Some ''key'')" "trim (input (typed ''Beach'')) \<noteq> []"
    "\<not> isLoading (typed ''Beach'')"
    by (simp_all add: typed_fields trim_examples)
  show ?thesis
    using C7_call_failure [OF h, of JSON_parse "ErrorObj ''[429] RATE_LIMIT_EXCEEDED''"]
      h includes_examples
    by (simp add: typed_fields)
qed

text \<open>
  The claim as stated fails where the thrown value is no \<open>Error\<close>: the assistant message
  is then none of the three the claim names.
\<close>

theorem C7_counterexample:
  "messages (submit JSON_parse (Some ''key'') (Rejected NonError) (typed ''Beach''))
     = [userMsg ''Beach'', assistantMsg msgUnexpected]
   \<and> msgUnexpected \<noteq> msgRetry \<and> msgUnexpected \<noteq> msgInvalidKey
   \<and> msgUnexpected \<noteq> msgRateLimit"
  by (simp add: ctl_defs typed_fields trim_examples errorMessage_def msgUnexpected_def
      msgRetry_def msgInvalidKey_def msgRateLimit_def)

subsection \<open>C8: the input and the pending flag after a submission\<close>

text \<open>
  C8. After every submission that is not a no-op, whatever its outcome (a response that
  parses, one that does not, a failed call, a missing key), the input is empty and the
  pending flag is false. Both controllers behave so.
\<close>

theorem C8_cleanup:
  assumes "trim (input s) \<noteq> []" and "\<not> isLoading s"
  shows "input (submit parse API_KEY result s) = []
         \<and> \<not> isLoading (submit parse API_KEY result s)
         \<and> input (submit_src parse API_KEY result s) = []
         \<and> \<not> isLoading (submit_src parse API_KEY result s)"
  using assms by (simp add: ctl_defs ctl_src_defs split: outcome.splits sum.splits)

theorem C8_cleanup_witness:
  "trim (input (typed ''Beach'')) \<noteq> [] \<and> \<not> isLoading (typed ''Beach'')
   \<and> input (submit JSON_parse (Some ''key'') (Responded ''not json'') (typed ''Beach'')) = []
   \<and> \<not> isLoading (submit JSON_parse (Some ''key'') (Responded ''not json'') (typed ''Beach''))
   \<and> input (submit_src JSON_parse None (Rejected NonError) (typed ''Beach'')) = []
   \<and> \<not> isLoading (submit_src JSON_parse None (Rejected NonError) (typed ''Beach''))"
proof -
  have h: "trim (input (typed ''Beach'')) \<noteq> []" "\<not> isLoading (typed ''Beach'')"
    by (simp_all add: typed_fields trim_examples)
  show ?thesis
    using C8_cleanup [OF h, of JSON_parse "Some ''key''" "Responded ''not json''"]
      C8_cleanup [OF h, of JSON_parse None "Rejected NonError"] h
    by simp
qed

subsection \<open>C9: the transcript only grows\<close>

text \<open>
  C9. Every operation of the controller (a change of the input, a submission, the
  settling of a request) leaves the messages it found as a prefix of the messages it
  leaves, and what it appends is nothing or one pair, a user message followed by an
  assistant message. So along any sequence of operations the transcript grows by whole
  pairs only. Both controllers behave so.
\<close>

theorem C9_append_only:
  "(\<exists>ps. messages (step parse API_KEY s ev) = messages s @ pairs ps \<and> length ps \<le> 1)
   \<and> (\<exists>ps. messages (foldl (step parse API_KEY) s evs) = messages s @ pairs ps)
   \<and> (\<exists>ps. messages (step_src parse API_KEY s ev) = messages s @ pairs ps \<and> length ps \<le> 1)
   \<and> (\<exists>ps. messages (foldl (step_src parse API_KEY) s evs) = messages s @ pairs ps)"
  using step_appends [of parse API_KEY s ev] step_src_appends [of parse API_KEY s ev]
    foldl_appends [of "step parse API_KEY" s evs, OF step_appends]
    foldl_appends [of "step_src parse API_KEY" s evs, OF step_src_appends]
  by blast

subsection \<open>C10: the parsed value is stored unchecked\<close>

text \<open>
  C10. Whatever value the text parses to is taken as a success and stored as the packing
  list, with no check of its shape, in both controllers. The renderer reads
  \<open>categories\<close> of the value it is given and calls \<open>map\<close> on it without a check: on
  every value that is not an object with an array under \<open>categories\<close> it throws a
  \<open>TypeError\<close>.
\<close>

theorem C10_no_validation:
  assumes "\<not> keyMissing API_KEY" and "trim (input s) \<noteq> []" and "\<not> isLoading s"
  shows "(parse (cleanText text) = Inr v \<longrightarrow>
            packingList (submit parse API_KEY (Responded text) s) = v
            \<and> messages (submit parse API_KEY (Responded text) s) =
                messages s @ [userMsg (input s), assistantMsg msgGenerated])
         \<and> (parse text = Inr v \<longrightarrow>
            packingList (submit_src parse API_KEY (Responded text) s) = v
            \<and> messages (submit_src parse API_KEY (Responded text) s) =
                messages s @ [userMsg (input s), assistantMsg msgGenerated])
         \<and> ((\<nexists>ms xs. v = JObject ms \<and> map_of (rev ms) ''categories'' = Some (JArray xs))
              \<longrightarrow> PackingListDisplay v = Inl TypeError)"
  using assms PackingListDisplay_TypeError [of v] by (simp add: ctl_defs ctl_src_defs)

text \<open>The texts \<open>42\<close>, \<open>[]\<close> and \<open>{}\<close>: each is stored, and rendering it throws.\<close>

theorem C10_no_validation_witness:
  "\<not> keyMissing (Some ''key'') \<and> trim (input (typed ''Beach'')) \<noteq> []
   \<and> \<not> isLoading (typed ''Beach'')
   \<and> JSON_parse (cleanText ''42'') = Inr (JNumber 42 0)
   \<and> packingList (submit JSON_parse (Some ''key'') (Responded ''42'') (typed ''Beach''))
       = JNumber 42 0
   \<and> messages (submit JSON_parse (Some ''key'') (Responded ''42'') (typed ''Beach''))
       = [userMsg ''Beach'', assistantMsg msgGenerated]
   \<and> renderResult (submit JSON_parse (Some ''key'') (Responded ''42'') (typed ''Beach''))
       = Some (Inl TypeError)
   \<and> renderResult (submit JSON_parse (Some ''key'') (Responded ''[]'') (typed ''Beach''))
       = Some (Inl TypeError)
   \<and> renderResult (submit JSON_parse (Some ''key'') (Responded ''{}'') (typed ''Beach''))
       = Some (Inl TypeError)"
proof -
  have h: "\<not> keyMissing (Some ''key'')" "trim (input (typed ''Beach'')) \<noteq> []"
    "\<not> isLoading (typed ''Beach'')"
    by (simp_all add: typed_fields trim_examples)
  show ?thesis
    using C10_no_validation [OF h, of JSON_parse "''42''" "JNumber 42 0"]
      C10_no_validation [OF h, of JSON_parse "''[]''" "JArray []"]
      C10_no_validation [OF h, of JSON_parse "''{}''" "JObject []"] h parse_examples
    by (simp add: typed_fields renderResult_def truthy_def)
qed

end
